theory Spec2Isabelle
  imports Complex_Main "HOL-Library.Word"
begin

unbundle bit_operations_syntax

section \<open>JavaScript values used by the Merkle modules\<close>

text \<open>
  A \<open>Uint8Array\<close> is a list of bytes. A JavaScript string is a list of code units;
  the strings of these modules are hex strings and wallet identifiers, so a code unit is a
  \<^typ>\<open>char\<close> (a code unit below 256). A value that may be \<open>undefined\<close> (an array read
  out of range, an optional field) is an \<open>option\<close>, with \<open>None\<close> for \<open>undefined\<close>.
  A leaf index is a \<open>number\<close> with an integral value, an \<^typ>\<open>int\<close>; a \<open>bigint\<close> is an
  \<^typ>\<open>int\<close> too. An exception is a value of \<open>error\<close>, and a function that may throw
  returns \<open>error + 'a\<close>.
\<close>

type_synonym bytes = "8 word list"

datatype error =
    TypeError
  | RangeError
  | SyntaxError
  | PoseidonHashFailed
  | FetchFailed
  | InvalidPublicKey

text \<open>\<open>xs[i]\<close> on an array: \<open>undefined\<close> outside \<open>0 .. length - 1\<close>.\<close>

definition js_index :: "'a list \<Rightarrow> int \<Rightarrow> 'a option" where
  "js_index xs i = (if 0 \<le> i \<and> i < int (length xs) then Some (xs ! nat i) else None)"

text \<open>\<open>a % b\<close> on integers: the remainder has the sign of the dividend.\<close>

definition js_rem :: "int \<Rightarrow> int \<Rightarrow> int" where
  "js_rem a b = sgn a * (\<bar>a\<bar> mod \<bar>b\<bar>)"

section \<open>Hex codec\<close>

definition hexdigit :: "nat \<Rightarrow> char" where
  "hexdigit n = ''0123456789abcdef'' ! n"

text \<open>\<open>n.toString(16)\<close> for a non-negative integer: lowercase, no leading zeros.\<close>

fun toString16_nat :: "nat \<Rightarrow> string" where
  "toString16_nat n =
     (if n < 16 then [hexdigit n] else toString16_nat (n div 16) @ [hexdigit (n mod 16)])"

declare toString16_nat.simps [simp del]

text \<open>\<open>i.toString(16)\<close> for a bigint: a minus sign before the digits of a negative one.\<close>

definition toString16 :: "int \<Rightarrow> string" where
  "toString16 i = (if i < 0 then CHR ''-'' # toString16_nat (nat (- i)) else toString16_nat (nat i))"

definition padStart :: "nat \<Rightarrow> char \<Rightarrow> string \<Rightarrow> string" where
  "padStart n c s = replicate (n - length s) c @ s"

text \<open>\<open>s.substr(start, len)\<close> and \<open>s.substring(a, b)\<close> for non-negative arguments.\<close>

definition substr :: "string \<Rightarrow> nat \<Rightarrow> nat \<Rightarrow> string" where
  "substr s start len = take len (drop start s)"

definition substring :: "string \<Rightarrow> nat \<Rightarrow> nat \<Rightarrow> string" where
  "substring s a b = take (max a b - min a b) (drop (min a b) s)"

text \<open>White space that \<open>parseInt\<close> skips, among the code units below 256.\<close>

definition is_ws :: "char \<Rightarrow> bool" where
  "is_ws c = (of_char c \<in> {9, 10, 11, 12, 13, 32, 160 :: nat})"

definition hexval :: "char \<Rightarrow> nat option" where
  "hexval c =
     (let n = (of_char c :: nat) in
      if 48 \<le> n \<and> n \<le> 57 then Some (n - 48)
      else if 97 \<le> n \<and> n \<le> 102 then Some (n - 87)
      else if 65 \<le> n \<and> n \<le> 70 then Some (n - 55)
      else None)"

definition is_hex :: "char \<Rightarrow> bool" where
  "is_hex c = (hexval c \<noteq> None)"

definition digits_value :: "string \<Rightarrow> nat" where
  "digits_value ds = foldl (\<lambda>a c. 16 * a + the (hexval c)) 0 ds"

text \<open>
  \<open>parseInt(s, 16)\<close>: skip leading white space, read a sign, drop a \<open>0x\<close> or \<open>0X\<close>
  prefix, read the longest run of hex digits. \<open>None\<close> is \<open>NaN\<close> (no digit).
\<close>

definition parseInt16 :: "string \<Rightarrow> int option" where
  "parseInt16 s =
     (let s1 = dropWhile is_ws s;
          neg = (case s1 of c # _ \<Rightarrow> c = CHR ''-'' | [] \<Rightarrow> False);
          s2 = (case s1 of c # r \<Rightarrow> if c = CHR ''-'' \<or> c = CHR ''+'' then r else s1 | [] \<Rightarrow> s1);
          s3 = (case s2 of c # d # r \<Rightarrow>
                  if c = CHR ''0'' \<and> (d = CHR ''x'' \<or> d = CHR ''X'') then r else s2
                | _ \<Rightarrow> s2);
          ds = takeWhile is_hex s3
      in if ds = [] then None
         else Some ((if neg then - 1 else 1) * int (digits_value ds)))"

text \<open>Storing a number into a \<open>Uint8Array\<close> cell: \<open>NaN\<close> becomes 0, an integer wraps modulo 256.\<close>

definition store_u8 :: "int option \<Rightarrow> 8 word" where
  "store_u8 v = (case v of None \<Rightarrow> 0 | Some n \<Rightarrow> word_of_int n)"

text \<open>\<open>toHex\<close> is the same function in both modules.\<close>

definition toHex :: "bytes \<Rightarrow> string" where
  "toHex bs = concat (map (\<lambda>b. padStart 2 (CHR ''0'') (toString16_nat (unat b))) bs)"

text \<open>
  \<open>fromHex\<close> of the local module reads with \<open>substr\<close>; \<open>new Uint8Array(hex.length / 2)\<close>
  truncates a fractional length.
\<close>

definition fromHex :: "string \<Rightarrow> bytes" where
  "fromHex hex =
     map (\<lambda>i. store_u8 (parseInt16 (substr hex (i * 2) 2))) [0 ..< length hex div 2]"

text \<open>\<open>fromHex\<close> of the delegated module reads with \<open>substring\<close>.\<close>

definition fromHex_delegated :: "string \<Rightarrow> bytes" where
  "fromHex_delegated hex =
     map (\<lambda>i. store_u8 (parseInt16 (substring hex (i * 2) (i * 2 + 2)))) [0 ..< length hex div 2]"

text \<open>A canonical hex string: lowercase hex digits, an even number of them.\<close>

definition canonical_hex :: "string \<Rightarrow> bool" where
  "canonical_hex s = (even (length s) \<and> list_all (\<lambda>c. c \<in> set ''0123456789abcdef'') s)"

section \<open>Local module: the placeholder hash\<close>

definition TREE_DEPTH :: nat where
  "TREE_DEPTH = 8"

type_synonym u32 = "32 word"

text \<open>
  The loop of \<open>simpleHash\<close>: \<open>h ^= data[i]; h = Math.imul(h, k)\<close> on four lanes,
  all in 32-bit arithmetic.
\<close>

fun simpleHash_loop :: "bytes \<Rightarrow> u32 \<times> u32 \<times> u32 \<times> u32 \<Rightarrow> u32 \<times> u32 \<times> u32 \<times> u32" where
  "simpleHash_loop [] hs = hs"
| "simpleHash_loop (d # ds) (h1, h2, h3, h4) =
     simpleHash_loop ds
       ((h1 XOR ucast d) * 0x01000193, (h2 XOR ucast d) * 0x811c9dc5,
        (h3 XOR ucast d) * 0x1b873593, (h4 XOR ucast d) * 0xcc9e2d51)"

text \<open>\<open>view.setUint32(off, v, true)\<close>: four bytes, least significant first.\<close>

definition setUint32_le :: "u32 \<Rightarrow> bytes" where
  "setUint32_le v = map (\<lambda>k. ucast (drop_bit (8 * k) v)) [0 ..< 4]"

definition simpleHash :: "bytes \<Rightarrow> bytes" where
  "simpleHash data =
     (case simpleHash_loop data (0x811c9dc5, 0x01000193, 0xdeadbeef, 0xcafebabe) of
        (h1, h2, h3, h4) \<Rightarrow>
          concat (map setUint32_le
            [h1, h2, h3, h4, h1 XOR h2, h2 XOR h3, h3 XOR h4, h4 XOR h1]))"

text \<open>\<open>new TextEncoder().encode(s)\<close>: UTF-8, two bytes for a code unit from 128 to 255.\<close>

definition utf8_encode :: "string \<Rightarrow> bytes" where
  "utf8_encode s =
     concat (map (\<lambda>c. let n = (of_char c :: nat) in
                        if n < 128 then [of_nat n]
                        else [of_nat (192 + n div 64), of_nat (128 + n mod 64)]) s)"

text \<open>
  \<open>combined\<close> has room for the 9-byte prefix and the inputs, written one after the other.
\<close>

definition poseidonHash2 :: "bytes \<Rightarrow> bytes \<Rightarrow> bytes" where
  "poseidonHash2 a b = simpleHash (utf8_encode ''poseidon2'' @ a @ b)"

definition poseidonHash3 :: "bytes \<Rightarrow> bytes \<Rightarrow> bytes \<Rightarrow> bytes" where
  "poseidonHash3 a b c = simpleHash (utf8_encode ''poseidon3'' @ a @ b @ c)"

section \<open>Local module: leaves, nullifiers, secrets\<close>

text \<open>
  A JavaScript \<open>number\<close>: a finite double is the rational it denotes. The product of two
  doubles is rounded by the machine; the multiplication is a parameter \<open>fmul\<close> of the
  functions that use it.
\<close>

datatype number = Num rat | NaN | PosInfinity | NegInfinity

fun Math_floor :: "number \<Rightarrow> number" where
  "Math_floor (Num q) = Num (of_int \<lfloor>q\<rfloor>)"
| "Math_floor x = x"

text \<open>\<open>BigInt(x)\<close> of a number: a \<open>RangeError\<close> unless \<open>x\<close> is an integer.\<close>

fun BigInt_of_number :: "number \<Rightarrow> error + int" where
  "BigInt_of_number (Num q) = (if of_int \<lfloor>q\<rfloor> = q then Inr \<lfloor>q\<rfloor> else Inl RangeError)"
| "BigInt_of_number x = Inl RangeError"

text \<open>\<open>view.setBigUint64(0, v, true)\<close>: \<open>v\<close> modulo \<open>2^64\<close>, least significant byte first.\<close>

definition setBigUint64_le :: "int \<Rightarrow> bytes" where
  "setBigUint64_le v = map (\<lambda>k. ucast (drop_bit (8 * k) (word_of_int v :: 64 word))) [0 ..< 8]"

record 'amt recipient =
  wallet :: string
  amount :: 'amt
  secret :: "bytes option"

record MerkleProof =
  leafIndex :: int
  siblings :: "bytes option list"
  leaf :: "bytes option"

definition computeLeafHash ::
  "(number \<Rightarrow> number \<Rightarrow> number) \<Rightarrow> string \<Rightarrow> number \<Rightarrow> bytes \<Rightarrow> error + bytes" where
  "computeLeafHash fmul w a s =
     (let walletBytes = utf8_encode w in
      case BigInt_of_number (Math_floor (fmul a (Num 1000000000))) of
        Inl e \<Rightarrow> Inl e
      | Inr amountLamports \<Rightarrow>
          Inr (poseidonHash3 walletBytes (setBigUint64_le amountLamports) s))"

definition computeNullifier :: "bytes \<Rightarrow> int \<Rightarrow> bytes" where
  "computeNullifier s i = poseidonHash2 s (setBigUint64_le i)"

text \<open>
  \<open>crypto.getRandomValues\<close> fills the 32 bytes; \<open>draw j\<close> is the random byte it puts at
  position \<open>j\<close>.
\<close>

definition generateSecret :: "(nat \<Rightarrow> 8 word) \<Rightarrow> bytes" where
  "generateSecret draw = map draw [0 ..< 32]"

section \<open>Local module: building the tree\<close>

text \<open>
  \<open>recipients.map(r => ({...r, secret: r.secret || generateSecret()}))\<close>: a new list of new
  objects; \<open>rng k\<close> is the draw of the \<open>k\<close>-th call of \<open>generateSecret\<close>. A \<open>Uint8Array\<close>
  is truthy whatever its length.
\<close>

fun recipientsWithSecrets ::
  "(nat \<Rightarrow> nat \<Rightarrow> 8 word) \<Rightarrow> nat \<Rightarrow> 'amt recipient list \<Rightarrow> 'amt recipient list" where
  "recipientsWithSecrets rng k [] = []"
| "recipientsWithSecrets rng k (r # rs) =
     (case secret r of
        Some s \<Rightarrow> r # recipientsWithSecrets rng k rs
      | None \<Rightarrow> r\<lparr>secret := Some (generateSecret (rng k))\<rparr> # recipientsWithSecrets rng (Suc k) rs)"

text \<open>\<open>xs.map(f)\<close> where \<open>f\<close> may throw: the first exception ends the map.\<close>

fun try_map :: "('a \<Rightarrow> error + 'b) \<Rightarrow> 'a list \<Rightarrow> error + 'b list" where
  "try_map f [] = Inr []"
| "try_map f (x # xs) =
     (case f x of
        Inl e \<Rightarrow> Inl e
      | Inr y \<Rightarrow> (case try_map f xs of Inl e \<Rightarrow> Inl e | Inr ys \<Rightarrow> Inr (y # ys)))"

definition leafOf :: "(number \<Rightarrow> number \<Rightarrow> number) \<Rightarrow> number recipient \<Rightarrow> error + bytes" where
  "leafOf fmul r =
     (case secret r of
        None \<Rightarrow> Inl TypeError
      | Some s \<Rightarrow> computeLeafHash fmul (wallet r) (amount r) s)"

definition paddedSize :: nat where
  "paddedSize = 2 ^ TREE_DEPTH"

definition zeroLeaf :: bytes where
  "zeroLeaf = replicate 32 0"

text \<open>\<open>while (leaves.length < paddedSize) leaves.push(new Uint8Array(32))\<close>\<close>

definition padLeaves :: "bytes list \<Rightarrow> bytes list" where
  "padLeaves ls = ls @ replicate (paddedSize - length ls) zeroLeaf"

text \<open>
  The inner loop, \<open>j = 0, 2, 4, ...\<close> while \<open>j < currentLevel.length\<close>: at a last
  unpaired entry \<open>currentLevel[j + 1]\<close> is \<open>undefined\<close> and \<open>poseidonHash2\<close> throws a
  \<open>TypeError\<close> on \<open>b.length\<close>.
\<close>

fun hashLevel :: "bytes list \<Rightarrow> error + bytes list" where
  "hashLevel [] = Inr []"
| "hashLevel [a] = Inl TypeError"
| "hashLevel (a # b # rest) =
     (case hashLevel rest of
        Inl e \<Rightarrow> Inl e
      | Inr ps \<Rightarrow> Inr (poseidonHash2 a b # ps))"

text \<open>The outer loop: \<open>n\<close> more levels above \<open>currentLevel\<close>, each pushed on \<open>tree\<close>.\<close>

fun buildLevels :: "nat \<Rightarrow> bytes list \<Rightarrow> bytes list list \<Rightarrow> error + (bytes list list \<times> bytes list)" where
  "buildLevels 0 currentLevel tree = Inr (tree, currentLevel)"
| "buildLevels (Suc n) currentLevel tree =
     (case hashLevel currentLevel of
        Inl e \<Rightarrow> Inl e
      | Inr nextLevel \<Rightarrow> buildLevels n nextLevel (tree @ [nextLevel]))"

record merkle_root_leaves =
  root :: "bytes option"
  leaves :: "bytes list"

record merkle_tree = merkle_root_leaves +
  tree :: "bytes list list"

text \<open>
  \<open>buildMerkleTree\<close> of the local module. \<open>tree[0]\<close> is the array \<open>leaves\<close> itself;
  \<open>currentLevel[0]\<close> is \<open>undefined\<close> for an empty level.
\<close>

definition buildMerkleTree ::
  "(number \<Rightarrow> number \<Rightarrow> number) \<Rightarrow> (nat \<Rightarrow> nat \<Rightarrow> 8 word) \<Rightarrow> number recipient list
     \<Rightarrow> error + merkle_tree" where
  "buildMerkleTree fmul rng recipients =
     (case try_map (leafOf fmul) (recipientsWithSecrets rng 0 recipients) of
        Inl e \<Rightarrow> Inl e
      | Inr computed \<Rightarrow>
          (let lvs = padLeaves computed in
           case buildLevels TREE_DEPTH lvs [lvs] of
             Inl e \<Rightarrow> Inl e
           | Inr (t, currentLevel) \<Rightarrow>
               Inr \<lparr>root = js_index currentLevel 0, leaves = lvs, tree = t\<rparr>))"

section \<open>Local module: proofs\<close>

text \<open>
  The loop of \<open>getMerkleProof\<close>, \<open>n\<close> iterations from level \<open>i\<close>. \<open>tree[i]\<close> of a
  missing level is \<open>undefined\<close> and reading its entry throws; an entry out of range is
  \<open>undefined\<close> and is pushed as it is.
\<close>

fun getMerkleProof_loop ::
  "nat \<Rightarrow> nat \<Rightarrow> bytes list list \<Rightarrow> int \<Rightarrow> bytes option list \<Rightarrow> error + bytes option list" where
  "getMerkleProof_loop 0 i t idx sibs = Inr sibs"
| "getMerkleProof_loop (Suc n) i t idx sibs =
     (case js_index t (int i) of
        None \<Rightarrow> Inl TypeError
      | Some level \<Rightarrow>
          (let siblingIdx = (if js_rem idx 2 = 0 then idx + 1 else idx - 1) in
           getMerkleProof_loop n (Suc i) t (idx div 2) (sibs @ [js_index level siblingIdx])))"

definition getMerkleProof :: "bytes list list \<Rightarrow> int \<Rightarrow> error + MerkleProof" where
  "getMerkleProof t li =
     (case getMerkleProof_loop TREE_DEPTH 0 t li [] of
        Inl e \<Rightarrow> Inl e
      | Inr sibs \<Rightarrow>
          (case js_index t 0 of
             None \<Rightarrow> Inl TypeError
           | Some level0 \<Rightarrow> Inr \<lparr>leafIndex = li, siblings = sibs, leaf = js_index level0 li\<rparr>))"

text \<open>
  The first loop of \<open>verifyMerkleProof\<close>; \<open>poseidonHash2\<close> throws on an \<open>undefined\<close>
  argument.
\<close>

fun verify_loop :: "bytes option list \<Rightarrow> int \<Rightarrow> bytes option \<Rightarrow> error + bytes option" where
  "verify_loop [] idx current = Inr current"
| "verify_loop (s # ss) idx current =
     (case (s, current) of
        (Some sb, Some c) \<Rightarrow>
          verify_loop ss (idx div 2)
            (Some (if js_rem idx 2 = 1 then poseidonHash2 sb c else poseidonHash2 c sb))
      | _ \<Rightarrow> Inl TypeError)"

text \<open>
  The second loop compares the entries 0 to 31, \<open>undefined\<close> where an array is shorter;
  indexing an \<open>undefined\<close> array throws.
\<close>

definition verifyMerkleProof ::
  "bytes option \<Rightarrow> bytes option \<Rightarrow> int \<Rightarrow> bytes option list \<Rightarrow> error + bool" where
  "verifyMerkleProof rt lf li sibs =
     (case verify_loop sibs li lf of
        Inl e \<Rightarrow> Inl e
      | Inr current \<Rightarrow>
          (case (current, rt) of
             (Some c, Some r) \<Rightarrow>
               Inr (list_all (\<lambda>i. js_index c (int i) = js_index r (int i)) [0 ..< 32])
           | _ \<Rightarrow> Inl TypeError))"

text \<open>
  Consecutive levels of a built tree: each level is \<open>hashLevel\<close> of the one below it.
\<close>

fun levels_chain :: "bytes list \<Rightarrow> bytes list list \<Rightarrow> bool" where
  "levels_chain cur [] = True"
| "levels_chain cur (l # ls) = (hashLevel cur = Inr l \<and> levels_chain l ls)"

section \<open>Delegated module: the remote hash\<close>

text \<open>
  The hash service is outside the repository. It is a parameter: \<open>svc k request\<close> is what
  the \<open>k\<close>-th \<open>fetch\<close> of a build, sent with the hex inputs \<open>request\<close>, comes back with:
  no usable response (the fetch or the reading of the body fails), a response that is not
  \<open>ok\<close>, or an \<open>ok\<close> response whose body has the field \<open>hash\<close>. The calls of a build
  are recorded, in the order they are sent, in a trace.
\<close>

datatype response = NoResponse | NotOk | OkHash string

type_synonym service = "nat \<Rightarrow> string list \<Rightarrow> response"

type_synonym trace = "string list list"

text \<open>
  \<open>BigInt("0x" + h)\<close>: white space at the end is dropped, then at least one hex digit
  and nothing else must remain; otherwise a \<open>SyntaxError\<close>.
\<close>

definition BigInt_0x :: "string \<Rightarrow> error + int" where
  "BigInt_0x h =
     (let d = rev (dropWhile is_ws (rev h)) in
      if d \<noteq> [] \<and> list_all is_hex d then Inr (int (digits_value d)) else Inl SyntaxError)"

text \<open>\<open>Buffer.from(bytes).toString("hex")\<close>: two lowercase hex digits per byte.\<close>

definition buffer_hex :: "bytes \<Rightarrow> string" where
  "buffer_hex bs = concat (map (\<lambda>b. [hexdigit (unat b div 16), hexdigit (unat b mod 16)]) bs)"

text \<open>One input of a request: \<open>i.toString(16)\<close>, with a \<open>0\<close> in front when its length is odd.\<close>

definition hexInput :: "int \<Rightarrow> string" where
  "hexInput i = (let hex = toString16 i in if odd (length hex) then CHR ''0'' # hex else hex)"

definition poseidonHash :: "service \<Rightarrow> trace \<Rightarrow> int list \<Rightarrow> trace \<times> (error + int)" where
  "poseidonHash svc tr inputs =
     (let hexInputs = map hexInput inputs in
      (tr @ [hexInputs],
       case svc (length tr) hexInputs of
         NoResponse \<Rightarrow> Inl FetchFailed
       | NotOk \<Rightarrow> Inl PoseidonHashFailed
       | OkHash h \<Rightarrow> BigInt_0x h))"

text \<open>
  A call fails when its response is missing, is not \<open>ok\<close>, or carries a hash that
  \<open>BigInt\<close> cannot read.
\<close>

definition call_fails :: "response \<Rightarrow> bool" where
  "call_fails r = (case r of OkHash h \<Rightarrow> isl (BigInt_0x h) | _ \<Rightarrow> True)"

section \<open>Delegated module: secrets, leaves, nullifiers\<close>

text \<open>\<open>secret[31] &= 0x1f\<close> after the random fill.\<close>

definition generateSecret_delegated :: "(nat \<Rightarrow> 8 word) \<Rightarrow> bytes" where
  "generateSecret_delegated draw =
     (let s = map draw [0 ..< 32] in s[31 := (s ! 31) AND 0x1f])"

text \<open>
  \<open>bigIntToBytes\<close>: the hex digits, padded to 64 characters, read two by two into 32
  bytes; digits beyond the 64th are not read.
\<close>

definition bigIntToBytes :: "int \<Rightarrow> bytes" where
  "bigIntToBytes bn =
     (let hex = padStart 64 (CHR ''0'') (hexInput bn) in
      map (\<lambda>i. if i * 2 < length hex
                then store_u8 (parseInt16 (substring hex (i * 2) (i * 2 + 2)))
                else 0) [0 ..< 32])"

text \<open>
  \<open>new PublicKey(wallet).toBuffer()\<close> belongs to a library outside the repository; it is
  the parameter \<open>pubkey\<close>, \<open>None\<close> when the constructor throws.
\<close>

definition computeLeafHash_delegated ::
  "service \<Rightarrow> (string \<Rightarrow> bytes option) \<Rightarrow> trace \<Rightarrow> string \<Rightarrow> int \<Rightarrow> bytes
     \<Rightarrow> trace \<times> (error + bytes)" where
  "computeLeafHash_delegated svc pubkey tr w amt s =
     (case pubkey w of
        None \<Rightarrow> (tr, Inl InvalidPublicKey)
      | Some walletBuffer \<Rightarrow>
          (case BigInt_0x (buffer_hex walletBuffer) of
             Inl e \<Rightarrow> (tr, Inl e)
           | Inr walletBn \<Rightarrow>
               (let amountLamports = amt in
                case BigInt_0x (buffer_hex s) of
                  Inl e \<Rightarrow> (tr, Inl e)
                | Inr secretBn \<Rightarrow>
                    (case poseidonHash svc tr [walletBn, amountLamports, secretBn] of
                       (tr', Inl e) \<Rightarrow> (tr', Inl e)
                     | (tr', Inr h) \<Rightarrow> (tr', Inr (bigIntToBytes h))))))"

definition computeNullifier_delegated ::
  "service \<Rightarrow> trace \<Rightarrow> bytes \<Rightarrow> int \<Rightarrow> trace \<times> (error + bytes)" where
  "computeNullifier_delegated svc tr s li =
     (case BigInt_0x (buffer_hex s) of
        Inl e \<Rightarrow> (tr, Inl e)
      | Inr secretBn \<Rightarrow>
          (case poseidonHash svc tr [secretBn, li] of
             (tr', Inl e) \<Rightarrow> (tr', Inl e)
           | (tr', Inr h) \<Rightarrow> (tr', Inr (bigIntToBytes h))))"

section \<open>Delegated module: building the tree\<close>

fun recipientsWithSecrets_delegated ::
  "(nat \<Rightarrow> nat \<Rightarrow> 8 word) \<Rightarrow> nat \<Rightarrow> 'amt recipient list \<Rightarrow> 'amt recipient list" where
  "recipientsWithSecrets_delegated rng k [] = []"
| "recipientsWithSecrets_delegated rng k (r # rs) =
     (case secret r of
        Some s \<Rightarrow> r # recipientsWithSecrets_delegated rng k rs
      | None \<Rightarrow>
          r\<lparr>secret := Some (generateSecret_delegated (rng k))\<rparr>
            # recipientsWithSecrets_delegated rng (Suc k) rs)"

text \<open>
  The body of the \<open>async\<close> function mapped over the recipients: the leaf hash, read back
  as a bigint.
\<close>

definition leafBn ::
  "service \<Rightarrow> (string \<Rightarrow> bytes option) \<Rightarrow> trace \<Rightarrow> int recipient \<Rightarrow> trace \<times> (error + int)" where
  "leafBn svc pubkey tr r =
     (case secret r of
        None \<Rightarrow> (tr, Inl TypeError)
      | Some s \<Rightarrow>
          (case computeLeafHash_delegated svc pubkey tr (wallet r) (amount r) s of
             (tr', Inl e) \<Rightarrow> (tr', Inl e)
           | (tr', Inr leafBytes) \<Rightarrow> (tr', BigInt_0x (buffer_hex leafBytes))))"

text \<open>
  \<open>recipientsWithSecrets.map(async r => ...)\<close>: every function runs up to its \<open>fetch\<close> in
  turn, so the requests go out in the order of the recipients, whatever their outcomes.
\<close>

fun leaf_calls ::
  "service \<Rightarrow> (string \<Rightarrow> bytes option) \<Rightarrow> trace \<Rightarrow> int recipient list
     \<Rightarrow> trace \<times> (error + int) list" where
  "leaf_calls svc pubkey tr [] = (tr, [])"
| "leaf_calls svc pubkey tr (r # rs) =
     (case leafBn svc pubkey tr r of
        (tr1, x) \<Rightarrow>
          (case leaf_calls svc pubkey tr1 rs of
             (tr2, xs) \<Rightarrow> (tr2, x # xs)))"

text \<open>
  \<open>await Promise.all(promises)\<close>: the values when every promise is fulfilled, an error
  when one is rejected (here the leftmost; JavaScript gives the one rejected first in time).
\<close>

fun Promise_all :: "(error + 'a) list \<Rightarrow> error + 'a list" where
  "Promise_all [] = Inr []"
| "Promise_all (Inl e # ps) = Inl e"
| "Promise_all (Inr v # ps) = (case Promise_all ps of Inl e \<Rightarrow> Inl e | Inr vs \<Rightarrow> Inr (v # vs))"

text \<open>
  The requests of one level, all sent before any is awaited. At a last unpaired entry
  \<open>currentLevel[j + 1]\<close> is \<open>undefined\<close>: \<open>poseidonHash\<close> fails on its \<open>toString\<close> and sends
  nothing.
\<close>

fun level_calls :: "service \<Rightarrow> trace \<Rightarrow> int list \<Rightarrow> trace \<times> (error + int) list" where
  "level_calls svc tr [] = (tr, [])"
| "level_calls svc tr [a] = (tr, [Inl TypeError])"
| "level_calls svc tr (a # b # rest) =
     (case poseidonHash svc tr [a, b] of
        (tr1, x) \<Rightarrow>
          (case level_calls svc tr1 rest of
             (tr2, xs) \<Rightarrow> (tr2, x # xs)))"

fun levels_delegated :: "service \<Rightarrow> nat \<Rightarrow> trace \<Rightarrow> int list \<Rightarrow> trace \<times> (error + int list)" where
  "levels_delegated svc 0 tr currentLevel = (tr, Inr currentLevel)"
| "levels_delegated svc (Suc n) tr currentLevel =
     (case level_calls svc tr currentLevel of
        (tr1, levelPromises) \<Rightarrow>
          (case Promise_all levelPromises of
             Inl e \<Rightarrow> (tr1, Inl e)
           | Inr nextLevel \<Rightarrow> levels_delegated svc n tr1 nextLevel))"

text \<open>
  \<open>buildMerkleTree\<close> of the delegated module: the requests it sent, and its outcome.
\<close>

definition buildMerkleTree_delegated ::
  "service \<Rightarrow> (string \<Rightarrow> bytes option) \<Rightarrow> (nat \<Rightarrow> nat \<Rightarrow> 8 word) \<Rightarrow> int recipient list
     \<Rightarrow> trace \<times> (error + merkle_root_leaves)" where
  "buildMerkleTree_delegated svc pubkey rng recipients =
     (case leaf_calls svc pubkey [] (recipientsWithSecrets_delegated rng 0 recipients) of
        (tr1, leafPromises) \<Rightarrow>
          (case Promise_all leafPromises of
             Inl e \<Rightarrow> (tr1, Inl e)
           | Inr computed \<Rightarrow>
               (let leavesBn = computed @ replicate (paddedSize - length computed) 0 in
                case levels_delegated svc TREE_DEPTH tr1 leavesBn of
                  (tr2, Inl e) \<Rightarrow> (tr2, Inl e)
                | (tr2, Inr currentLevel) \<Rightarrow>
                    (case js_index currentLevel 0 of
                       None \<Rightarrow> (tr2, Inl TypeError)
                     | Some rootBn \<Rightarrow>
                         (tr2, Inr \<lparr>root = Some (bigIntToBytes rootBn),
                                    leaves = map bigIntToBytes leavesBn\<rparr>)))))"

text \<open>
  From the trace \<open>tr\<close> to the trace \<open>tr'\<close> of a later moment: the calls made so far stay
  as they are, and \<open>failed\<close> holds if one of the calls made in between failed.
\<close>

definition extends_with_failures :: "service \<Rightarrow> trace \<Rightarrow> trace \<Rightarrow> bool \<Rightarrow> bool" where
  "extends_with_failures svc tr tr' failed \<longleftrightarrow>
     (\<exists>new. tr' = tr @ new) \<and>
     (\<forall>k. length tr \<le> k \<and> k < length tr' \<and> call_fails (svc k (tr' ! k)) \<longrightarrow> failed)"


section \<open>The caller's recipients as objects\<close>

text \<open>
  The array a caller passes to \<open>buildMerkleTree\<close> and the recipient objects in it are
  objects of the caller: what the build does to them shows in a heap. A heap is the list
  of the objects created so far, an object's reference is its position, and creating an
  object puts it at the end. Byte arrays stay values: neither module writes to a byte array
  after the function that created it has returned.
\<close>

datatype 'amt cell = RecipientObj "'amt recipient" | ArrayObj "nat list"

type_synonym 'amt heap = "'amt cell list"

definition alloc :: "'amt heap \<Rightarrow> 'amt cell \<Rightarrow> 'amt heap \<times> nat" where
  "alloc h c = (h @ [c], length h)"

definition recipient_at :: "'amt heap \<Rightarrow> nat \<Rightarrow> 'amt recipient option" where
  "recipient_at h r =
     (case js_index h (int r) of Some (RecipientObj obj) \<Rightarrow> Some obj | _ \<Rightarrow> None)"

text \<open>
  \<open>recipients.map(r => ({...r, secret: r.secret || generateSecret()}))\<close> on the elements
  \<open>refs\<close> of the array: for each element a new object, a copy of the fields of \<open>r\<close> with
  the field \<open>secret\<close> set; \<open>gen\<close> is the module's \<open>generateSecret\<close>. A reference that is
  not to a recipient object is outside the declared type of the argument.
\<close>

fun map_withSecrets ::
  "((nat \<Rightarrow> 8 word) \<Rightarrow> bytes) \<Rightarrow> (nat \<Rightarrow> nat \<Rightarrow> 8 word) \<Rightarrow> nat \<Rightarrow> 'amt heap \<Rightarrow> nat list
     \<Rightarrow> 'amt heap \<times> (error + nat list)" where
  "map_withSecrets gen rng k h [] = (h, Inr [])"
| "map_withSecrets gen rng k h (r # rs) =
     (case recipient_at h r of
        None \<Rightarrow> (h, Inl TypeError)
      | Some obj \<Rightarrow>
          (case secret obj of
             Some s \<Rightarrow>
               (case alloc h (RecipientObj (obj\<lparr>secret := Some s\<rparr>)) of
                  (h1, r') \<Rightarrow>
                    (case map_withSecrets gen rng k h1 rs of
                       (h2, Inl e) \<Rightarrow> (h2, Inl e)
                     | (h2, Inr rs') \<Rightarrow> (h2, Inr (r' # rs'))))
           | None \<Rightarrow>
               (case alloc h (RecipientObj (obj\<lparr>secret := Some (gen (rng k))\<rparr>)) of
                  (h1, r') \<Rightarrow>
                    (case map_withSecrets gen rng (Suc k) h1 rs of
                       (h2, Inl e) \<Rightarrow> (h2, Inl e)
                     | (h2, Inr rs') \<Rightarrow> (h2, Inr (r' # rs'))))))"

text \<open>
  \<open>buildMerkleTree\<close> of the local module on a heap: \<open>recipients\<close> is the reference of the
  caller's array. The new objects are put in a new array; the leaves are computed from the
  fields read off the new objects, and the rest is as in \<open>buildMerkleTree\<close>. The result is
  the heap after the call and the outcome.
\<close>

definition leafOf_at :: "(number \<Rightarrow> number \<Rightarrow> number) \<Rightarrow> number heap \<Rightarrow> nat \<Rightarrow> error + bytes" where
  "leafOf_at fmul h r =
     (case recipient_at h r of None \<Rightarrow> Inl TypeError | Some obj \<Rightarrow> leafOf fmul obj)"

definition buildMerkleTree_heap ::
  "(number \<Rightarrow> number \<Rightarrow> number) \<Rightarrow> (nat \<Rightarrow> nat \<Rightarrow> 8 word) \<Rightarrow> number heap \<Rightarrow> nat
     \<Rightarrow> number heap \<times> (error + merkle_tree)" where
  "buildMerkleTree_heap fmul rng h recipients =
     (case js_index h (int recipients) of
        Some (ArrayObj refs) \<Rightarrow>
          (case map_withSecrets generateSecret rng 0 h refs of
             (h1, Inl e) \<Rightarrow> (h1, Inl e)
           | (h1, Inr objs) \<Rightarrow>
               (case alloc h1 (ArrayObj objs) of
                  (h2, withSecrets) \<Rightarrow>
                    (case try_map (leafOf_at fmul h2) objs of
                       Inl e \<Rightarrow> (h2, Inl e)
                     | Inr computed \<Rightarrow>
                         (let lvs = padLeaves computed in
                          case buildLevels TREE_DEPTH lvs [lvs] of
                            Inl e \<Rightarrow> (h2, Inl e)
                          | Inr (t, currentLevel) \<Rightarrow>
                              (h2, Inr \<lparr>root = js_index currentLevel 0, leaves = lvs,
                                         tree = t\<rparr>)))))
      | _ \<Rightarrow> (h, Inl TypeError))"

text \<open>
  \<open>buildMerkleTree\<close> of the delegated module on a heap: the heap after the call, the
  requests sent, and the outcome.
\<close>

fun leaf_calls_at ::
  "service \<Rightarrow> (string \<Rightarrow> bytes option) \<Rightarrow> int heap \<Rightarrow> trace \<Rightarrow> nat list
     \<Rightarrow> trace \<times> (error + int) list" where
  "leaf_calls_at svc pubkey h tr [] = (tr, [])"
| "leaf_calls_at svc pubkey h tr (r # rs) =
     (case (case recipient_at h r of
              None \<Rightarrow> (tr, Inl TypeError)
            | Some obj \<Rightarrow> leafBn svc pubkey tr obj) of
        (tr1, x) \<Rightarrow>
          (case leaf_calls_at svc pubkey h tr1 rs of
             (tr2, xs) \<Rightarrow> (tr2, x # xs)))"

definition buildMerkleTree_delegated_heap ::
  "service \<Rightarrow> (string \<Rightarrow> bytes option) \<Rightarrow> (nat \<Rightarrow> nat \<Rightarrow> 8 word) \<Rightarrow> int heap \<Rightarrow> nat
     \<Rightarrow> int heap \<times> trace \<times> (error + merkle_root_leaves)" where
  "buildMerkleTree_delegated_heap svc pubkey rng h recipients =
     (case js_index h (int recipients) of
        Some (ArrayObj refs) \<Rightarrow>
          (case map_withSecrets generateSecret_delegated rng 0 h refs of
             (h1, Inl e) \<Rightarrow> (h1, [], Inl e)
           | (h1, Inr objs) \<Rightarrow>
               (case alloc h1 (ArrayObj objs) of
                  (h2, withSecrets) \<Rightarrow>
                    (case leaf_calls_at svc pubkey h2 [] objs of
                       (tr1, leafPromises) \<Rightarrow>
                         (case Promise_all leafPromises of
                            Inl e \<Rightarrow> (h2, tr1, Inl e)
                          | Inr computed \<Rightarrow>
                              (let leavesBn =
                                     computed @ replicate (paddedSize - length computed) 0 in
                               case levels_delegated svc TREE_DEPTH tr1 leavesBn of
                                 (tr2, Inl e) \<Rightarrow> (h2, tr2, Inl e)
                               | (tr2, Inr currentLevel) \<Rightarrow>
                                   (case js_index currentLevel 0 of
                                      None \<Rightarrow> (h2, tr2, Inl TypeError)
                                    | Some rootBn \<Rightarrow>
                                        (h2, tr2,
                                         Inr \<lparr>root = Some (bigIntToBytes rootBn),
                                              leaves = map bigIntToBytes leavesBn\<rparr>)))))))
      | _ \<Rightarrow> (h, [], Inl TypeError))"


section \<open>Integers denoted by byte arrays\<close>

text \<open>
  The integer a byte array denotes when read big-endian (most significant byte first), and
  when read little-endian (least significant byte first).
\<close>

definition be_value :: "bytes \<Rightarrow> nat" where
  "be_value bs = foldl (\<lambda>a b. 256 * a + unat b) 0 bs"

definition le_value :: "bytes \<Rightarrow> nat" where
  "le_value bs = foldr (\<lambda>b a. unat b + 256 * a) bs 0"

section \<open>Sample inputs\<close>

text \<open>
  A multiplication that is exact on finite operands, a random source that draws only
  zero bytes and one that draws only \<open>0xff\<close> bytes, and a recipient with a given secret.
\<close>

fun exact_times :: "number \<Rightarrow> number \<Rightarrow> number" where
  "exact_times (Num a) (Num b) = Num (a * b)"
| "exact_times x y = NaN"

definition zero_rng :: "nat \<Rightarrow> nat \<Rightarrow> 8 word" where
  "zero_rng k j = 0"

definition ones_rng :: "nat \<Rightarrow> nat \<Rightarrow> 8 word" where
  "ones_rng k j = 255"


text \<open>
  A hash service that answers every request with a response that is not \<open>ok\<close>, one that
  answers every request with the hash \<open>01\<close>, a key decoder that gives 32 zero bytes for
  every wallet, and a recipient of the delegated module without a secret.
\<close>

definition failing_service :: service where
  "failing_service k request = NotOk"


definition sample_pubkey :: "string \<Rightarrow> bytes option" where
  "sample_pubkey w = Some zeroLeaf"

definition sample_recipient_delegated :: "int recipient" where
  "sample_recipient_delegated = \<lparr>wallet = ''w'', amount = 1, secret = None\<rparr>"


section \<open>Properties of the hex codec\<close>

lemma lt16_cases:
  "n < 16 \<Longrightarrow> n \<in> {0, 1, 2, 3, 4, 5, 6, 7, 8, 9, 10, 11, 12, 13, 14, 15::nat}"
  by simp arith

lemma unat_byte_less: "unat (b :: 8 word) < 256"
  using unsigned_less [of b, where 'a = nat] by simp

lemma hexval_hexdigit: "n < 16 \<Longrightarrow> hexval (hexdigit n) = Some n"
  by (drule lt16_cases) (auto simp: hexval_def hexdigit_def)

lemma is_hex_hexdigit: "n < 16 \<Longrightarrow> is_hex (hexdigit n)"
  by (simp add: is_hex_def hexval_hexdigit)

lemma hexdigit_not_ws: "n < 16 \<Longrightarrow> \<not> is_ws (hexdigit n)"
  by (drule lt16_cases) (auto simp: is_ws_def hexdigit_def)

lemma hexdigit_not_special:
  "n < 16 \<Longrightarrow> hexdigit n \<noteq> CHR ''-'' \<and> hexdigit n \<noteq> CHR ''+'' \<and> hexdigit n \<noteq> CHR ''x'' \<and> hexdigit n \<noteq> CHR ''X''"
  by (drule lt16_cases) (auto simp: hexdigit_def)

lemma hexdigit_lower: "n < 16 \<Longrightarrow> hexdigit n \<in> set ''0123456789abcdef''"
  by (drule lt16_cases) (auto simp: hexdigit_def)

lemma hexdigit_0: "hexdigit 0 = CHR ''0''"
  by (simp add: hexdigit_def)

lemma toString16_nat_byte:
  assumes "n < 256"
  shows "padStart 2 (CHR ''0'') (toString16_nat n) = [hexdigit (n div 16), hexdigit (n mod 16)]"
proof (cases "n < 16")
  case True
  then show ?thesis
    by (simp add: toString16_nat.simps [of n] padStart_def hexdigit_0)
next
  case False
  with assms have "n div 16 < 16" by simp
  with False show ?thesis
    by (simp add: toString16_nat.simps [of n] toString16_nat.simps [of "n div 16"] padStart_def)
qed

lemma parseInt16_two_digits:
  assumes "h < 16" "l < 16"
  shows "parseInt16 [hexdigit h, hexdigit l] = Some (int (16 * h + l))"
  using hexdigit_not_ws [OF assms(1)] hexdigit_not_special [OF assms(1)]
    hexdigit_not_special [OF assms(2)] is_hex_hexdigit [OF assms(1)] is_hex_hexdigit [OF assms(2)]
  by (simp add: parseInt16_def digits_value_def hexval_hexdigit assms)

lemma fromHex_Cons2:
  "fromHex (a # b # rest) = store_u8 (parseInt16 [a, b]) # fromHex rest"
proof -
  have "[0 ..< Suc (length rest div 2)] = 0 # map Suc [0 ..< length rest div 2]"
    by (simp add: upt_conv_Cons map_Suc_upt del: upt_Suc)
  then show ?thesis
    by (simp add: fromHex_def substr_def comp_def del: upt_Suc)
qed

lemma fromHex_delegated_eq: "fromHex_delegated hex = fromHex hex"
  by (simp add: fromHex_delegated_def fromHex_def substring_def substr_def)

lemma toHex_Cons:
  "toHex (b # bs) = hexdigit (unat b div 16) # hexdigit (unat b mod 16) # toHex bs"
proof -
  have "unat b < 256" by (rule unat_byte_less)
  then show ?thesis by (simp add: toHex_def toString16_nat_byte)
qed

lemma store_byte: "store_u8 (Some (int (16 * (unat b div 16) + unat b mod 16))) = (b :: 8 word)"
  by (simp add: store_u8_def)

lemma fromHex_toHex: "fromHex (toHex x) = x"
proof (induction x)
  case Nil
  show ?case by (simp add: fromHex_def toHex_def)
next
  case (Cons b bs)
  have lt: "unat b div 16 < 16" "unat b mod 16 < 16"
    using unat_byte_less [of b] by simp_all
  show ?case
    by (simp only: toHex_Cons fromHex_Cons2 parseInt16_two_digits [OF lt] store_byte Cons.IH)
qed

lemma lower_hex_is_hexdigit:
  "c \<in> set ''0123456789abcdef'' \<Longrightarrow> \<exists>n<16. c = hexdigit n"
proof -
  assume "c \<in> set ''0123456789abcdef''"
  then obtain k where "k < length ''0123456789abcdef''" "c = ''0123456789abcdef'' ! k"
    by (metis in_set_conv_nth)
  then have "k < 16" "c = hexdigit k" by (simp_all add: hexdigit_def)
  then show ?thesis by blast
qed

lemma toHex_length: "length (toHex x) = 2 * length x"
  by (induction x) (simp_all add: toHex_Cons, simp add: toHex_def)

lemma toHex_lower: "list_all (\<lambda>c. c \<in> set ''0123456789abcdef'') (toHex x)"
proof (induction x)
  case Nil
  show ?case by (simp add: toHex_def)
next
  case (Cons b bs)
  have "unat b div 16 < 16" "unat b mod 16 < 16"
    using unat_byte_less [of b] by simp_all
  then show ?case
    using Cons.IH hexdigit_lower [of "unat b div 16"] hexdigit_lower [of "unat b mod 16"]
    by (simp add: toHex_Cons)
qed

lemma toHex_fromHex_pair:
  assumes "h < 16" "l < 16"
  shows "toHex (store_u8 (parseInt16 [hexdigit h, hexdigit l]) # bs) = hexdigit h # hexdigit l # toHex bs"
proof -
  have "16 * h + l < 256" using assms by simp
  then have u: "unat (word_of_int (int (16 * h + l)) :: 8 word) = 16 * h + l"
    by (simp only: of_int_of_nat_eq) (simp add: unat_of_nat del: of_nat_add of_nat_mult)
  have "(16 * h + l) div 16 = h" "(16 * h + l) mod 16 = l"
    using assms by simp_all
  then show ?thesis
    by (simp only: parseInt16_two_digits [OF assms] store_u8_def option.case toHex_Cons u)
qed

lemma toHex_fromHex: "canonical_hex s \<Longrightarrow> toHex (fromHex s) = s"
proof (induction s rule: induct_list012)
  case 1
  show ?case by (simp add: fromHex_def toHex_def)
next
  case (2 a)
  then show ?case by (simp add: canonical_hex_def)
next
  case (3 a b rest)
  from 3(3) have r: "canonical_hex rest"
    and ab: "a \<in> set ''0123456789abcdef''" "b \<in> set ''0123456789abcdef''"
    by (simp_all add: canonical_hex_def)
  from ab obtain h l where hl: "h < 16" "l < 16" "a = hexdigit h" "b = hexdigit l"
    using lower_hex_is_hexdigit by meson
  show ?case
    by (simp only: hl fromHex_Cons2 toHex_fromHex_pair [OF hl(1,2)] 3(1) [OF r])
qed

text \<open>
  Claim C8. The hex codec round-trips: for every byte array \<open>x\<close>, \<open>fromHex (toHex x) = x\<close>
  (with either module's \<open>fromHex\<close>), \<open>toHex x\<close> has two characters per byte, all of them
  lowercase hex digits (so no prefix); and for every canonical lowercase hex string \<open>s\<close> of
  even length, \<open>toHex (fromHex s) = s\<close>.
\<close>

theorem hex_codec_roundtrip:
  "fromHex (toHex x) = x \<and> fromHex_delegated (toHex x) = x
   \<and> length (toHex x) = 2 * length x
   \<and> list_all (\<lambda>c. c \<in> set ''0123456789abcdef'') (toHex x)
   \<and> (canonical_hex s \<longrightarrow> toHex (fromHex s) = s \<and> toHex (fromHex_delegated s) = s)"
  by (intro conjI impI)
    (simp_all only: fromHex_delegated_eq fromHex_toHex toHex_length toHex_lower toHex_fromHex)

theorem hex_codec_roundtrip_witness:
  "canonical_hex ''00ff'' \<and> toHex (fromHex ''00ff'') = ''00ff''
   \<and> toHex (fromHex_delegated ''00ff'') = ''00ff''
   \<and> fromHex (toHex [0, 255]) = [0, 255]"
  using hex_codec_roundtrip [of "[0, 255]" "''00ff''"]
  by (simp add: canonical_hex_def)

section \<open>Properties of the local tree\<close>

lemma hashLevel_Inl: "hashLevel xs = Inl e \<Longrightarrow> e = TypeError \<and> odd (length xs)"
  by (induction xs arbitrary: e rule: hashLevel.induct) (auto split: sum.splits)

lemma hashLevel_Inr:
  "hashLevel xs = Inr ys \<Longrightarrow>
     even (length xs) \<and> length ys = length xs div 2
     \<and> (\<forall>j < length ys. ys ! j = poseidonHash2 (xs ! (2 * j)) (xs ! (2 * j + 1)))"
proof (induction xs arbitrary: ys rule: hashLevel.induct)
  case 1
  then show ?case by simp
next
  case (2 a)
  then show ?case by simp
next
  case (3 a b rest)
  from 3(2) obtain ps where ps: "hashLevel rest = Inr ps" and ys: "ys = poseidonHash2 a b # ps"
    by (auto split: sum.splits)
  note ih = 3(1) [OF ps]
  have "ys ! j = poseidonHash2 ((a # b # rest) ! (2 * j)) ((a # b # rest) ! (2 * j + 1))"
    if "j < length ys" for j
  proof (cases j)
    case 0
    then show ?thesis by (simp add: ys)
  next
    case (Suc j')
    with that ys have "j' < length ps" by simp
    with ih have "ps ! j' = poseidonHash2 (rest ! (2 * j')) (rest ! (2 * j' + 1))" by blast
    then show ?thesis by (simp add: ys Suc)
  qed
  with ih show ?case by (simp add: ys)
qed

lemma hashLevel_even:
  assumes "even (length xs)"
  shows "\<exists>ys. hashLevel xs = Inr ys"
proof (cases "hashLevel xs")
  case (Inl e)
  with hashLevel_Inl [OF Inl] assms show ?thesis by simp
next
  case (Inr ys)
  then show ?thesis by blast
qed


lemma buildLevels_Inr:
  "buildLevels n cur tr = Inr (tr', topl) \<Longrightarrow>
     \<exists>new. tr' = tr @ new \<and> length new = n \<and> levels_chain cur new \<and> topl = last (cur # new)"
proof (induction n arbitrary: cur tr)
  case 0
  then show ?case by simp
next
  case (Suc n)
  from Suc.prems obtain nxt where nxt: "hashLevel cur = Inr nxt"
    and rest: "buildLevels n nxt (tr @ [nxt]) = Inr (tr', topl)"
    by (auto split: sum.splits)
  from Suc.IH [OF rest] obtain new where
    new: "tr' = (tr @ [nxt]) @ new" "length new = n" "levels_chain nxt new" "topl = last (nxt # new)"
    by blast
  then have "tr' = tr @ (nxt # new) \<and> length (nxt # new) = Suc n
      \<and> levels_chain cur (nxt # new) \<and> topl = last (cur # nxt # new)"
    using nxt by simp
  then show ?case by blast
qed

lemma buildLevels_dvd:
  "2 ^ n dvd length cur \<Longrightarrow> \<exists>tr' topl. buildLevels n cur tr = Inr (tr', topl)"
proof (induction n arbitrary: cur tr)
  case 0
  then show ?case by simp
next
  case (Suc n)
  then have ev: "even (length cur)" by auto
  then obtain nxt where nxt: "hashLevel cur = Inr nxt" using hashLevel_even by blast
  from hashLevel_Inr [OF nxt] have len: "length nxt = length cur div 2" by simp
  from Suc.prems have "2 ^ n dvd length cur div 2"
    by auto
  with len have "2 ^ n dvd length nxt" by simp
  from Suc.IH [OF this] nxt show ?case by simp
qed


lemma levels_chain_step:
  "levels_chain cur new \<Longrightarrow> k < length new \<Longrightarrow> hashLevel ((cur # new) ! k) = Inr ((cur # new) ! Suc k)"
proof (induction new arbitrary: cur k)
  case Nil
  then show ?case by simp
next
  case (Cons l ls)
  show ?case
  proof (cases k)
    case 0
    with Cons.prems show ?thesis by simp
  next
    case (Suc k')
    with Cons.prems have "levels_chain l ls" "k' < length ls" by simp_all
    from Cons.IH [OF this] show ?thesis by (simp add: Suc)
  qed
qed

lemma levels_chain_length:
  "levels_chain cur new \<Longrightarrow> length cur = 2 ^ length new * c \<Longrightarrow> k \<le> length new \<Longrightarrow>
     length ((cur # new) ! k) = 2 ^ (length new - k) * c"
proof (induction new arbitrary: cur k)
  case Nil
  then show ?case by simp
next
  case (Cons l ls)
  show ?case
  proof (cases k)
    case 0
    with Cons.prems show ?thesis by simp
  next
    case (Suc k')
    from Cons.prems have l: "hashLevel cur = Inr l" and ch: "levels_chain l ls" by simp_all
    from hashLevel_Inr [OF l] Cons.prems(2) have "length l = 2 ^ length ls * c" by simp
    from Cons.IH [OF ch this, of k'] Cons.prems(3) show ?thesis by (simp add: Suc)
  qed
qed


lemma js_rem_2_eq_0: "js_rem a 2 = 0 \<longleftrightarrow> even a"
  by (auto simp: js_rem_def sgn_if)

lemma js_rem_2_eq_1: "js_rem a 2 = 1 \<longleftrightarrow> 0 < a \<and> odd a"
proof (cases "0 < a")
  case True
  then show ?thesis by (auto simp: js_rem_def sgn_if) presburger+
next
  case False
  have "\<bar>a\<bar> mod 2 \<ge> 0" by simp
  with False show ?thesis by (auto simp: js_rem_def sgn_if)
qed

lemma js_index_in: "0 \<le> i \<Longrightarrow> i < int (length xs) \<Longrightarrow> js_index xs i = Some (xs ! nat i)"
  by (simp add: js_index_def)

lemma js_index_out: "i < 0 \<or> int (length xs) \<le> i \<Longrightarrow> js_index xs i = None"
  by (auto simp: js_index_def)

lemma proof_verify_aux:
  fixes t :: "bytes list list"
  assumes len: "\<And>k. k \<le> D \<Longrightarrow> length (t ! k) = 2 ^ (D - k)"
    and lt: "length t = Suc D"
    and step: "\<And>k. k < D \<Longrightarrow> hashLevel (t ! k) = Inr (t ! Suc k)"
  shows "i + n = D \<Longrightarrow> 0 \<le> idx \<Longrightarrow> idx < 2 ^ n \<Longrightarrow>
     \<exists>ss. getMerkleProof_loop n i t idx sibs = Inr (sibs @ ss) \<and> length ss = n
        \<and> list_all (\<lambda>s. s \<noteq> None) ss
        \<and> verify_loop ss idx (Some (t ! i ! nat idx)) = Inr (Some (t ! D ! 0))"
proof (induction n arbitrary: i idx sibs)
  case 0
  then have "idx = 0" "i = D" by simp_all
  then show ?case by simp
next
  case (Suc n)
  define m where "m = nat idx"
  define level where "level = t ! i"
  define j where "j = m div 2"
  from Suc.prems have i: "i < D" "Suc i + n = D" by simp_all
  have ti: "js_index t (int i) = Some level"
    using i lt by (simp add: js_index_def level_def)
  have llen: "length level = 2 * 2 ^ n"
    using len [of i] i by (simp add: level_def) (metis Suc.prems(1) add_diff_cancel_left' power_Suc)
  from Suc.prems have m: "idx = int m" "m < 2 * 2 ^ n"
    by (simp_all add: m_def nat_less_iff)
  have jn: "j < 2 ^ n" using m by (simp add: j_def)
  have "int j < int (2 ^ n)" using jn by (simp only: of_nat_less_iff)
  then have jn': "int j < 2 ^ n" by simp
  have half1: "idx div 2 = int j" using m by (simp add: j_def zdiv_int)
  have half: "idx div 2 = int j" "0 \<le> idx div 2" "idx div 2 < 2 ^ n"
    using jn' by (simp_all add: half1)
  have next_len: "length (t ! Suc i) = 2 ^ n"
    using len [of "Suc i"] i by auto
  from hashLevel_Inr [OF step [OF i(1)]] next_len jn
  have parent: "t ! Suc i ! j = poseidonHash2 (level ! (2 * j)) (level ! (2 * j + 1))"
    by (simp add: level_def)
  define sibIdx where "sibIdx = (if js_rem idx 2 = 0 then idx + 1 else idx - 1)"
  define sibn where "sibn = (if even m then m + 1 else m - 1)"
  define sib where "sib = level ! sibn"
  have sibn: "sibIdx = int sibn"
    using m by (auto simp: sibIdx_def sibn_def js_rem_2_eq_0 elim: oddE)
  define p :: nat where "p = 2 ^ n"
  have "m < 2 * p" using m by (simp add: p_def)
  then have "sibn < 2 * p" by (auto simp: sibn_def elim: oddE)
  then have "sibn < length level" by (simp add: llen p_def)
  then have sibv: "js_index level sibIdx = Some sib"
    by (simp add: js_index_def sib_def sibn)
  have climb: "(if js_rem idx 2 = 1 then poseidonHash2 sib (level ! m) else poseidonHash2 (level ! m) sib)
      = t ! Suc i ! j"
  proof (cases "even m")
    case True
    then have "m = 2 * j" "sibn = 2 * j + 1" "js_rem idx 2 \<noteq> 1"
      using m by (auto simp: j_def sibn_def js_rem_2_eq_1)
    then show ?thesis by (simp add: parent sib_def)
  next
    case False
    then have "m = 2 * j + 1" "sibn = 2 * j" "js_rem idx 2 = 1"
      using m by (auto simp: j_def sibn_def js_rem_2_eq_1 elim: oddE)
    then show ?thesis by (simp add: parent sib_def)
  qed
  from Suc.IH [OF i(2) half(2,3), of "sibs @ [Some sib]"] obtain ss where
    ss: "getMerkleProof_loop n (Suc i) t (idx div 2) (sibs @ [Some sib]) = Inr ((sibs @ [Some sib]) @ ss)"
      "length ss = n" "list_all (\<lambda>s. s \<noteq> None) ss"
      "verify_loop ss (idx div 2) (Some (t ! Suc i ! nat (idx div 2))) = Inr (Some (t ! D ! 0))"
    by blast
  have "getMerkleProof_loop (Suc n) i t idx sibs = Inr (sibs @ (Some sib # ss))"
    using ti sibv ss(1) by (simp add: sibIdx_def Let_def)
  moreover have "verify_loop (Some sib # ss) idx (Some (t ! i ! nat idx)) = Inr (Some (t ! D ! 0))"
  proof -
    have "verify_loop (Some sib # ss) idx (Some (level ! m)) =
        verify_loop ss (idx div 2)
          (Some (if js_rem idx 2 = 1 then poseidonHash2 sib (level ! m)
                 else poseidonHash2 (level ! m) sib))"
      by simp
    also have "\<dots> = verify_loop ss (idx div 2) (Some (t ! Suc i ! j))"
      by (simp only: climb)
    also have "\<dots> = Inr (Some (t ! D ! 0))"
      using ss(4) half(1) by simp
    finally show ?thesis by (simp only: level_def m_def)
  qed
  ultimately show ?case
    using ss(2,3) by (intro exI [of _ "Some sib # ss"]) simp
qed


lemma proof_out_of_range_aux:
  fixes t :: "bytes list list"
  assumes len: "\<And>k. k \<le> D \<Longrightarrow> length (t ! k) = 2 ^ (D - k)"
    and lt: "length t = Suc D"
  shows "i + n = D \<Longrightarrow> idx < 0 \<or> 2 ^ n \<le> idx \<Longrightarrow>
     getMerkleProof_loop n i t idx sibs = Inr (sibs @ replicate n None)"
proof (induction n arbitrary: i idx sibs)
  case 0
  then show ?case by simp
next
  case (Suc n)
  define level where "level = t ! i"
  define p :: int where "p = 2 ^ n"
  from Suc.prems have i: "i < D" "Suc i + n = D" by simp_all
  have ti: "js_index t (int i) = Some level"
    using i lt by (simp add: js_index_def level_def)
  have "D - i = Suc n" using Suc.prems(1) by simp
  then have "length level = 2 * 2 ^ n"
    using len [of i] i by (simp add: level_def)
  then have llen: "int (length level) = 2 * p" by (simp add: p_def)
  from Suc.prems(2) have out: "idx < 0 \<or> 2 * p \<le> idx" by (simp add: p_def)
  define sibIdx where "sibIdx = (if js_rem idx 2 = 0 then idx + 1 else idx - 1)"
  have "sibIdx < 0 \<or> 2 * p \<le> sibIdx"
    using out by (auto simp: sibIdx_def js_rem_2_eq_0)
  then have sibv: "js_index level sibIdx = None"
    by (simp add: js_index_out llen)
  from out have "idx div 2 < 0 \<or> 2 ^ n \<le> idx div 2" by (auto simp: p_def)
  from Suc.IH [OF i(2) this, of "sibs @ [None]"]
  have "getMerkleProof_loop n (Suc i) t (idx div 2) (sibs @ [None])
      = Inr (sibs @ replicate (Suc n) None)"
    by (simp add: replicate_app_Cons_same)
  then show ?case
    using ti sibv by (simp add: sibIdx_def Let_def del: replicate_Suc)
qed

lemma try_map_length: "try_map f xs = Inr ys \<Longrightarrow> length ys = length xs"
  by (induction xs arbitrary: ys) (auto split: sum.splits)

lemma recipientsWithSecrets_length: "length (recipientsWithSecrets rng k rs) = length rs"
  by (induction rs arbitrary: k) (auto split: option.splits)

lemma padLeaves_length: "length (padLeaves ls) = max (length ls) 256"
  by (simp add: padLeaves_def paddedSize_def TREE_DEPTH_def)

lemma buildMerkleTree_Inr:
  assumes "buildMerkleTree fmul rng rs = Inr t"
  obtains computed new where
    "try_map (leafOf fmul) (recipientsWithSecrets rng 0 rs) = Inr computed"
    "length computed = length rs"
    "leaves t = padLeaves computed"
    "tree t = padLeaves computed # new"
    "length new = 8"
    "levels_chain (padLeaves computed) new"
    "root t = js_index (last (padLeaves computed # new)) 0"
proof -
  from assms obtain computed tr topl where
    c: "try_map (leafOf fmul) (recipientsWithSecrets rng 0 rs) = Inr computed"
    and b: "buildLevels TREE_DEPTH (padLeaves computed) [padLeaves computed] = Inr (tr, topl)"
    and t: "t = \<lparr>root = js_index topl 0, leaves = padLeaves computed, tree = tr\<rparr>"
    by (auto simp: buildMerkleTree_def Let_def split: sum.splits)
  from buildLevels_Inr [OF b] obtain new where
    new: "tr = [padLeaves computed] @ new" "length new = TREE_DEPTH"
      "levels_chain (padLeaves computed) new" "topl = last (padLeaves computed # new)"
    by blast
  show thesis
    using c try_map_length [OF c] new t
    by (intro that [of computed new]) (simp_all add: recipientsWithSecrets_length TREE_DEPTH_def)
qed

lemma built_tree_shape:
  assumes "length rs \<le> 256" and "buildMerkleTree fmul rng rs = Inr t"
  shows "length (tree t) = 9"
    and "\<And>k. k \<le> 8 \<Longrightarrow> length (tree t ! k) = 2 ^ (8 - k)"
    and "\<And>k. k < 8 \<Longrightarrow> hashLevel (tree t ! k) = Inr (tree t ! Suc k)"
    and "root t = Some (tree t ! 8 ! 0)"
    and "leaves t = tree t ! 0"
proof -
  from assms(2) obtain computed new where
    c: "length computed = length rs"
      "leaves t = padLeaves computed"
      "tree t = padLeaves computed # new"
      "length new = 8"
      "levels_chain (padLeaves computed) new"
      "root t = js_index (last (padLeaves computed # new)) 0"
    by (rule buildMerkleTree_Inr)
  have plen: "length (padLeaves computed) = 2 ^ length new * 1"
    using assms(1) c(1,4) by (simp add: padLeaves_length)
  show "length (tree t) = 9" using c by simp
  show lens: "length (tree t ! k) = 2 ^ (8 - k)" if "k \<le> 8" for k
    using levels_chain_length [OF c(5) plen, of k] that c(3,4) by simp
  show "hashLevel (tree t ! k) = Inr (tree t ! Suc k)" if "k < 8" for k
    using levels_chain_step [OF c(5), of k] that c(3,4) by simp
  have "new \<noteq> []" using c(4) by auto
  then have "last (tree t) = tree t ! 8"
    using c(3,4) by (simp add: last_conv_nth)
  moreover have "length (tree t ! 8) = 1" using lens [of 8] by simp
  ultimately show "root t = Some (tree t ! 8 ! 0)"
    using c(6,3) by (simp add: js_index_def)
  show "leaves t = tree t ! 0" using c by simp
qed

lemma buildMerkleTree_succeeds:
  assumes c: "try_map (leafOf fmul) (recipientsWithSecrets rng 0 rs) = Inr computed"
    and d: "length rs \<le> 256 \<or> 256 dvd length rs"
  shows "\<exists>t. buildMerkleTree fmul rng rs = Inr t \<and> leaves t = padLeaves computed"
proof -
  have "length computed = length rs"
    using try_map_length [OF c] by (simp add: recipientsWithSecrets_length)
  then have "2 ^ TREE_DEPTH dvd length (padLeaves computed)"
    using d by (auto simp: padLeaves_length TREE_DEPTH_def max_def)
  from buildLevels_dvd [OF this, of "[padLeaves computed]"] obtain tr topl where
    "buildLevels TREE_DEPTH (padLeaves computed) [padLeaves computed] = Inr (tr, topl)"
    by blast
  then show ?thesis using c by (simp add: buildMerkleTree_def Let_def)
qed



lemma buildMerkleTree_empty: "\<exists>t. buildMerkleTree fmul rng [] = Inr t"
  using buildMerkleTree_succeeds [of fmul rng "[]" "[]"] by auto

lemma getMerkleProof_in_range:
  fixes t :: "bytes list list"
  assumes len: "\<And>k. k \<le> 8 \<Longrightarrow> length (t ! k) = 2 ^ (8 - k)"
    and lt: "length t = 9"
    and step: "\<And>k. k < 8 \<Longrightarrow> hashLevel (t ! k) = Inr (t ! Suc k)"
    and i: "0 \<le> i" "i < 256"
  shows "\<exists>ss. getMerkleProof t i = Inr \<lparr>leafIndex = i, siblings = ss, leaf = Some (t ! 0 ! nat i)\<rparr>
     \<and> length ss = 8 \<and> list_all (\<lambda>s. s \<noteq> None) ss
     \<and> verifyMerkleProof (Some (t ! 8 ! 0)) (Some (t ! 0 ! nat i)) i ss = Inr True"
proof -
  have lt': "length t = Suc 8" using lt by simp
  have i': "i < 2 ^ 8" using i by simp
  from proof_verify_aux [of 8 t 0 8 i "[]", OF len lt' step _ i(1) i']
  obtain ss where ss: "getMerkleProof_loop 8 0 t i [] = Inr ss" "length ss = 8"
    "list_all (\<lambda>s. s \<noteq> None) ss"
    "verify_loop ss i (Some (t ! 0 ! nat i)) = Inr (Some (t ! 8 ! 0))"
    by auto
  have t0: "js_index t 0 = Some (t ! 0)" using lt by (simp add: js_index_def)
  have "length (t ! 0) = 256" using len [of 0] by simp
  then have lf: "js_index (t ! 0) i = Some (t ! 0 ! nat i)"
    using i by (simp add: js_index_def)
  have "getMerkleProof t i = Inr \<lparr>leafIndex = i, siblings = ss, leaf = Some (t ! 0 ! nat i)\<rparr>"
    using ss(1) t0 lf by (simp add: getMerkleProof_def TREE_DEPTH_def)
  moreover have "verifyMerkleProof (Some (t ! 8 ! 0)) (Some (t ! 0 ! nat i)) i ss = Inr True"
    using ss(4) by (simp add: verifyMerkleProof_def list_all_iff)
  ultimately show ?thesis using ss(2,3) by blast
qed

text \<open>
  Claim C1. Round trip: for a tree returned by the local \<open>buildMerkleTree\<close> on at most 256
  recipients and every leaf index \<open>i\<close> with \<open>0 \<le> i < 256\<close>, \<open>getMerkleProof\<close> returns a
  proof (the leaf at \<open>i\<close> and 8 siblings), and \<open>verifyMerkleProof\<close> of the root, that leaf,
  \<open>i\<close> and those siblings returns \<open>true\<close>.
\<close>

theorem merkle_proof_roundtrip:
  assumes "length recipients \<le> 256"
    and "buildMerkleTree fmul rng recipients = Inr t"
    and "0 \<le> i" and "i < 256"
  shows "\<exists>p. getMerkleProof (tree t) i = Inr p
     \<and> leafIndex p = i \<and> leaf p = Some (leaves t ! nat i) \<and> length (siblings p) = 8
     \<and> verifyMerkleProof (root t) (leaf p) i (siblings p) = Inr True"
proof -
  note shape = built_tree_shape [OF assms(1,2)]
  from getMerkleProof_in_range [OF shape(2,1,3) assms(3,4)] obtain ss where
    "getMerkleProof (tree t) i = Inr \<lparr>leafIndex = i, siblings = ss, leaf = Some (tree t ! 0 ! nat i)\<rparr>"
    "length ss = 8"
    "verifyMerkleProof (Some (tree t ! 8 ! 0)) (Some (tree t ! 0 ! nat i)) i ss = Inr True"
    by blast
  then show ?thesis by (simp add: shape(4,5))
qed

theorem merkle_proof_roundtrip_witness:
  "\<exists>t p. buildMerkleTree exact_times zero_rng [] = Inr t
     \<and> getMerkleProof (tree t) 5 = Inr p
     \<and> verifyMerkleProof (root t) (leaf p) 5 (siblings p) = Inr True"
proof -
  obtain t where t: "buildMerkleTree exact_times zero_rng [] = Inr t"
    using buildMerkleTree_empty by blast
  have "length ([] :: number recipient list) \<le> 256" by simp
  from merkle_proof_roundtrip [OF this t, of 5] t show ?thesis by auto
qed

text \<open>
  Claim C7. Structure of a tree returned by the local \<open>buildMerkleTree\<close> on at most 256
  recipients: 9 levels, level \<open>i\<close> of length \<open>2 ^ (8 - i)\<close> (256 leaves, one root), every
  entry above the leaves the hash of its two children, the root returned the one entry of
  level 8, and \<open>leaves\<close> level 0.
\<close>

theorem buildMerkleTree_structure:
  assumes "length recipients \<le> 256" and "buildMerkleTree fmul rng recipients = Inr t"
  shows "length (tree t) = 9
     \<and> (\<forall>i \<le> 8. length (tree t ! i) = 2 ^ (8 - i))
     \<and> (\<forall>i < 8. \<forall>j < length (tree t ! (i + 1)).
           tree t ! (i + 1) ! j = poseidonHash2 (tree t ! i ! (2 * j)) (tree t ! i ! (2 * j + 1)))
     \<and> root t = Some (tree t ! 8 ! 0)
     \<and> leaves t = tree t ! 0"
proof -
  note shape = built_tree_shape [OF assms]
  have "tree t ! (i + 1) ! j = poseidonHash2 (tree t ! i ! (2 * j)) (tree t ! i ! (2 * j + 1))"
    if "i < 8" "j < length (tree t ! (i + 1))" for i j
    using hashLevel_Inr [OF shape(3) [OF that(1)]] that(2) by simp
  with shape show ?thesis by blast
qed

theorem buildMerkleTree_structure_witness:
  "\<exists>t. buildMerkleTree exact_times zero_rng [] = Inr t
     \<and> length (tree t) = 9 \<and> length (tree t ! 0) = 256 \<and> length (tree t ! 8) = 1
     \<and> tree t ! 8 ! 0 = poseidonHash2 (tree t ! 7 ! 0) (tree t ! 7 ! 1)
     \<and> root t = Some (tree t ! 8 ! 0)"
proof -
  obtain t where t: "buildMerkleTree exact_times zero_rng [] = Inr t"
    using buildMerkleTree_empty by blast
  have "length ([] :: number recipient list) \<le> 256" by simp
  from buildMerkleTree_structure [OF this t] have s:
    "length (tree t) = 9" "\<forall>i \<le> 8. length (tree t ! i) = 2 ^ (8 - i)"
    "\<forall>i < 8. \<forall>j < length (tree t ! (i + 1)).
           tree t ! (i + 1) ! j = poseidonHash2 (tree t ! i ! (2 * j)) (tree t ! i ! (2 * j + 1))"
    "root t = Some (tree t ! 8 ! 0)"
    by blast+
  from s(2) have l: "length (tree t ! 0) = 256" "length (tree t ! 8) = 1" by auto
  have "tree t ! 8 ! 0 = poseidonHash2 (tree t ! 7 ! 0) (tree t ! 7 ! 1)"
    using s(3) [rule_format, of 7 0] l(2) by simp
  with t s l show ?thesis by blast
qed

lemma getMerkleProof_outside:
  fixes t :: "bytes list list"
  assumes len: "\<And>k. k \<le> 8 \<Longrightarrow> length (t ! k) = 2 ^ (8 - k)"
    and lt: "length t = 9"
    and i: "i < 0 \<or> 256 \<le> i"
  shows "getMerkleProof t i = Inr \<lparr>leafIndex = i, siblings = replicate 8 None, leaf = None\<rparr>"
proof -
  have lt': "length t = Suc 8" using lt by simp
  have i': "i < 0 \<or> 2 ^ 8 \<le> i" using i by simp
  have loop: "getMerkleProof_loop 8 0 t i [] = Inr ([] @ replicate 8 None)"
    by (rule proof_out_of_range_aux [of 8 t 0 8 i "[]", OF len lt' _ i']) simp_all
  have t0: "js_index t 0 = Some (t ! 0)" using lt by (simp add: js_index_def)
  have "length (t ! 0) = 256" using len [of 0] by simp
  then have lf: "js_index (t ! 0) i = None"
    using i by (auto simp: js_index_def)
  show ?thesis
    using loop t0 lf by (simp add: getMerkleProof_def TREE_DEPTH_def)
qed

text \<open>
  Claim C4, as amended. \<open>getMerkleProof\<close> checks nothing: on a tree returned by the local
  \<open>buildMerkleTree\<close> (at most 256 recipients) and a leaf index below 0 or from 256 on, it
  raises no error and returns a proof whose leaf and 8 siblings are all \<open>undefined\<close>.
\<close>

theorem getMerkleProof_out_of_range:
  assumes "length recipients \<le> 256"
    and "buildMerkleTree fmul rng recipients = Inr t"
    and "i < 0 \<or> 256 \<le> i"
  shows "getMerkleProof (tree t) i = Inr \<lparr>leafIndex = i, siblings = replicate 8 None, leaf = None\<rparr>"
  using built_tree_shape(2,1) [OF assms(1,2)] assms(3) by (rule getMerkleProof_outside)

theorem getMerkleProof_out_of_range_witness:
  "\<exists>t. buildMerkleTree exact_times zero_rng [] = Inr t
     \<and> getMerkleProof (tree t) (- 1) = Inr \<lparr>leafIndex = - 1, siblings = replicate 8 None, leaf = None\<rparr>"
proof -
  obtain t where t: "buildMerkleTree exact_times zero_rng [] = Inr t"
    using buildMerkleTree_empty by blast
  have "length ([] :: number recipient list) \<le> 256" by simp
  from getMerkleProof_out_of_range [OF this t, of "- 1"] t show ?thesis by simp
qed

text \<open>
  The claim as written fails: index 256 on the tree built from no recipients gives a
  proof, not an error.
\<close>

theorem getMerkleProof_out_of_range_counterexample:
  "\<not> isl (buildMerkleTree exact_times zero_rng [])
   \<and> getMerkleProof (tree (projr (buildMerkleTree exact_times zero_rng []))) 256
       = Inr \<lparr>leafIndex = 256, siblings = replicate 8 None, leaf = None\<rparr>"
proof -
  obtain t where t: "buildMerkleTree exact_times zero_rng [] = Inr t"
    using buildMerkleTree_empty by blast
  have "length ([] :: number recipient list) \<le> 256" by simp
  note shape = built_tree_shape(2,1) [OF this t]
  have "(256 :: int) < 0 \<or> 256 \<le> (256 :: int)" by simp
  from getMerkleProof_outside [OF shape this]
  have "getMerkleProof (tree t) 256 = Inr \<lparr>leafIndex = 256, siblings = replicate 8 None, leaf = None\<rparr>" .
  with t show ?thesis by simp
qed

lemma verify_loop_defined:
  "\<exists>c. verify_loop (map Some ss) li (Some l) = Inr (Some c)"
  by (induction ss arbitrary: li l) simp_all

lemma js_index_all_eq:
  "list_all (\<lambda>i. js_index c (int i) = js_index r (int i)) [0 ..< n] \<longleftrightarrow> take n c = take n r"
proof
  assume a: "list_all (\<lambda>i. js_index c (int i) = js_index r (int i)) [0 ..< n]"
  then have eq: "js_index c (int i) = js_index r (int i)" if "i < n" for i
    using that by (simp add: list_all_iff)
  have len: "min (length c) n = min (length r) n"
  proof (rule ccontr)
    assume ne: "min (length c) n \<noteq> min (length r) n"
    define k where "k = min (min (length c) n) (min (length r) n)"
    from ne have "k < n" "k < length c \<longleftrightarrow> \<not> k < length r"
      by (auto simp: k_def min_def split: if_splits)
    with eq [of k] show False by (auto simp: js_index_def split: if_splits)
  qed
  show "take n c = take n r"
  proof (rule nth_equalityI)
    show "length (take n c) = length (take n r)" using len by simp
  next
    fix i assume "i < length (take n c)"
    then have i: "i < n" "i < length c" "i < length r" using len by auto
    with eq [of i] show "take n c ! i = take n r ! i" by (simp add: js_index_def)
  qed
next
  assume t: "take n c = take n r"
  have "js_index c (int i) = js_index r (int i)" if "i < n" for i
  proof -
    from t have "length (take n c) = length (take n r)" by simp
    then have len: "min (length c) n = min (length r) n" by simp
    show ?thesis
    proof (cases "i < length c")
      case True
      with len that have "i < length r" by (auto simp: min_def split: if_splits)
      moreover have "take n c ! i = take n r ! i" using t by simp
      ultimately show ?thesis using True that by (simp add: js_index_def)
    next
      case False
      with len that have "\<not> i < length r" by (auto simp: min_def split: if_splits)
      with False show ?thesis by (simp add: js_index_def)
    qed
  qed
  then show "list_all (\<lambda>i. js_index c (int i) = js_index r (int i)) [0 ..< n]"
    by (simp add: list_all_iff)
qed

lemma verify_loop_undefined_current:
  "sibs \<noteq> [] \<Longrightarrow> verify_loop sibs li None = Inl TypeError"
  by (cases sibs) (simp_all split: option.splits)

lemma verify_loop_undefined_sibling:
  "None \<in> set sibs \<Longrightarrow> verify_loop sibs li cur = Inl TypeError"
proof (induction sibs arbitrary: li cur)
  case Nil
  then show ?case by simp
next
  case (Cons s ss)
  show ?case
  proof (cases s)
    case None
    then show ?thesis by simp
  next
    case (Some sb)
    with Cons.prems have "None \<in> set ss" by auto
    from Cons.IH [OF this] Some show ?thesis by (cases cur) simp_all
  qed
qed

lemma verify_loop_error: "verify_loop sibs li cur = Inl e \<Longrightarrow> e = TypeError"
proof (induction sibs arbitrary: li cur)
  case Nil
  then show ?case by simp
next
  case (Cons s ss)
  show ?case
  proof (cases "s = None \<or> cur = None")
    case True
    with Cons.prems show ?thesis by (auto split: option.splits)
  next
    case False
    then obtain sb c where "s = Some sb" "cur = Some c" by auto
    with Cons.prems Cons.IH show ?thesis by simp
  qed
qed

lemma verifyMerkleProof_undefined:
  assumes "rt = None \<or> lf = None \<or> None \<in> set sibs"
  shows "verifyMerkleProof rt lf li sibs = Inl TypeError"
proof (cases "verify_loop sibs li lf")
  case (Inl e)
  with verify_loop_error [OF Inl] show ?thesis by (simp add: verifyMerkleProof_def)
next
  case (Inr cur)
  with verify_loop_undefined_sibling [of sibs li lf] have ns: "None \<notin> set sibs" by auto
  show ?thesis
  proof (cases "lf = None")
    case True
    with Inr verify_loop_undefined_current [of sibs li] have "sibs = []" by auto
    with True Inr have "cur = None" by simp
    with Inr show ?thesis by (simp add: verifyMerkleProof_def)
  next
    case False
    with assms ns have "rt = None" by simp
    with Inr show ?thesis by (simp add: verifyMerkleProof_def split: option.splits)
  qed
qed

text \<open>
  Claim C5, as amended. On a root, a leaf and siblings that are byte arrays, with any
  integer index and any number of siblings, \<open>verifyMerkleProof\<close> raises nothing and returns
  a boolean: whether the first 32 entries of the recomputed root are those of the expected
  root. It raises, a \<open>TypeError\<close>, when the root, the leaf or a sibling is \<open>undefined\<close>. It
  checks neither the number of siblings nor the range of the index.
\<close>

theorem verifyMerkleProof_returns_boolean:
  "(\<exists>c. verify_loop (map Some ss) li (Some l) = Inr (Some c)
      \<and> verifyMerkleProof (Some r) (Some l) li (map Some ss) = Inr (take 32 c = take 32 r))
   \<and> (rt = None \<or> lf = None \<or> None \<in> set sibs \<longrightarrow>
        verifyMerkleProof rt lf li' sibs = Inl TypeError)"
proof (intro conjI impI)
  obtain c where c: "verify_loop (map Some ss) li (Some l) = Inr (Some c)"
    using verify_loop_defined by blast
  then have "verifyMerkleProof (Some r) (Some l) li (map Some ss) = Inr (take 32 c = take 32 r)"
    by (simp add: verifyMerkleProof_def js_index_all_eq)
  with c show "\<exists>c. verify_loop (map Some ss) li (Some l) = Inr (Some c)
      \<and> verifyMerkleProof (Some r) (Some l) li (map Some ss) = Inr (take 32 c = take 32 r)"
    by blast
next
  assume "rt = None \<or> lf = None \<or> None \<in> set sibs"
  then show "verifyMerkleProof rt lf li' sibs = Inl TypeError"
    by (rule verifyMerkleProof_undefined)
qed

theorem verifyMerkleProof_returns_boolean_witness:
  "verifyMerkleProof (Some zeroLeaf) (Some zeroLeaf) 7 [Some zeroLeaf]
     = Inr (take 32 (poseidonHash2 zeroLeaf zeroLeaf) = take 32 zeroLeaf)
   \<and> verifyMerkleProof (Some zeroLeaf) None 256 (replicate 8 None) = Inl TypeError"
  using verifyMerkleProof_returns_boolean
    [of "[zeroLeaf]" 7 zeroLeaf zeroLeaf "Some zeroLeaf" None "replicate 8 None" 256]
  by (simp add: js_rem_2_eq_1)

text \<open>
  The claim as written fails: no sibling at all and the index 256 give \<open>true\<close>, not an
  error.
\<close>

theorem verifyMerkleProof_malformed_counterexample:
  "verifyMerkleProof (Some zeroLeaf) (Some zeroLeaf) 256 [] = Inr True"
  by (simp add: verifyMerkleProof_def list_all_iff)






section \<open>Properties of the delegated module\<close>

lemma digits_foldl_buffer_hex:
  "foldl (\<lambda>a c. 16 * a + the (hexval c)) a (buffer_hex bs) = foldl (\<lambda>a b. 256 * a + unat b) a bs"
proof (induction bs arbitrary: a)
  case Nil
  show ?case by (simp add: buffer_hex_def)
next
  case (Cons b bs)
  have lt: "unat b div 16 < 16" "unat b mod 16 < 16"
    using unat_byte_less [of b] by simp_all
  have "16 * (16 * a + unat b div 16) + unat b mod 16 = 256 * a + unat b"
    by simp
  moreover have "buffer_hex (b # bs) = hexdigit (unat b div 16) # hexdigit (unat b mod 16) # buffer_hex bs"
    by (simp add: buffer_hex_def)
  ultimately show ?case
    using Cons.IH by (simp add: hexval_hexdigit lt add.commute)
qed

lemma digits_value_buffer_hex: "digits_value (buffer_hex bs) = be_value bs"
  by (simp add: digits_value_def be_value_def digits_foldl_buffer_hex)

lemma buffer_hex_is_hex: "list_all is_hex (buffer_hex bs)"
proof (induction bs)
  case Nil
  show ?case by (simp add: buffer_hex_def)
next
  case (Cons b bs)
  have lt: "unat b div 16 < 16" "unat b mod 16 < 16"
    using unat_byte_less [of b] by simp_all
  have "buffer_hex (b # bs) = hexdigit (unat b div 16) # hexdigit (unat b mod 16) # buffer_hex bs"
    by (simp add: buffer_hex_def)
  then show ?case using Cons.IH by (simp add: is_hex_hexdigit lt)
qed

lemma is_hex_not_ws: "is_hex c \<Longrightarrow> \<not> is_ws c"
  by (auto simp: is_hex_def is_ws_def hexval_def Let_def split: if_splits)

lemma strip_trailing_ws:
  assumes "list_all is_hex h"
  shows "rev (dropWhile is_ws (rev h)) = h"
proof (cases h rule: rev_cases)
  case Nil
  then show ?thesis by simp
next
  case (snoc xs x)
  with assms have "\<not> is_ws x" by (simp add: is_hex_not_ws)
  with snoc show ?thesis by simp
qed

lemma BigInt_0x_hex_digits:
  "list_all is_hex h \<Longrightarrow> h \<noteq> [] \<Longrightarrow> BigInt_0x h = Inr (int (digits_value h))"
  by (simp add: BigInt_0x_def strip_trailing_ws)

lemma BigInt_0x_buffer_hex:
  "BigInt_0x (buffer_hex bs) = (if bs = [] then Inl SyntaxError else Inr (int (be_value bs)))"
proof (cases bs)
  case Nil
  then show ?thesis by (simp add: BigInt_0x_def buffer_hex_def)
next
  case (Cons b bs')
  then have "buffer_hex bs \<noteq> []" by (simp add: buffer_hex_def)
  with BigInt_0x_hex_digits [OF buffer_hex_is_hex this] Cons show ?thesis
    by (simp add: digits_value_buffer_hex)
qed

lemma generateSecret_delegated_eq:
  "generateSecret_delegated draw = map draw [0 ..< 31] @ [draw 31 AND 0x1f]"
proof -
  have "[0 ..< 32] = [0 ..< 31] @ [31 :: nat]"
    using upt_Suc_append [of 0 31] by simp
  then have m: "map draw [0 ..< 32] = map draw [0 ..< 31] @ [draw 31]" by simp
  have l: "length (map draw [0 ..< 31]) = 31" by simp
  show ?thesis
    unfolding generateSecret_delegated_def Let_def m
    using list_update_length [of "map draw [0 ..< 31]" "draw 31" "[]" "draw 31 AND 0x1f"]
      nth_append_length [of "map draw [0 ..< 31]" "draw 31" "[]"]
    by (simp only: l)
qed

lemma be_value_snoc: "be_value (bs @ [b]) = 256 * be_value bs + unat b"
  by (simp add: be_value_def)

lemma be_value_replicate_255: "be_value (replicate n 255) = 256 ^ n - 1"
proof (induction n)
  case 0
  show ?case by (simp add: be_value_def)
next
  case (Suc n)
  have "replicate (Suc n) (255 :: 8 word) = replicate n 255 @ [255]"
    by (simp add: replicate_append_same)
  moreover have "(256 :: nat) ^ n \<ge> 1" by simp
  moreover have "unat (255 :: 8 word) = 255" by simp
  ultimately have "be_value (replicate (Suc n) 255) = 256 * (256 ^ n - 1) + 255"
    by (simp only: be_value_snoc Suc.IH)
  also have "\<dots> = 256 ^ Suc n - 1"
    using \<open>(256 :: nat) ^ n \<ge> 1\<close> by (simp add: algebra_simps)
  finally show ?case .
qed

lemma ones_draw: "map (ones_rng k) [0 ..< n] = replicate n 255"
  by (simp add: map_replicate_const ones_rng_def [abs_def])

lemma be_value_ones_secret: "be_value (generateSecret_delegated (ones_rng 0)) = 2 ^ 256 - 225"
  by (simp add: generateSecret_delegated_eq be_value_snoc ones_draw be_value_replicate_255 ones_rng_def)

text \<open>Whenever the first random byte is at least \<open>0x20\<close>, the secret is not below \<open>2^253\<close>.\<close>

lemma be_value_foldl:
  "foldl (\<lambda>a b. 256 * a + unat b) a bs = a * 256 ^ length bs + be_value bs"
proof (induction bs arbitrary: a)
  case Nil
  show ?case by (simp add: be_value_def)
next
  case (Cons b bs)
  have "be_value (b # bs) = foldl (\<lambda>a b. 256 * a + unat b) (unat b) bs"
    by (simp add: be_value_def)
  also have "\<dots> = unat b * 256 ^ length bs + be_value bs" by (rule Cons.IH)
  finally have c: "be_value (b # bs) = unat b * 256 ^ length bs + be_value bs" .
  have "foldl (\<lambda>a b. 256 * a + unat b) a (b # bs) = (256 * a + unat b) * 256 ^ length bs + be_value bs"
    using Cons.IH [of "256 * a + unat b"] by simp
  with c show ?case by (simp add: algebra_simps)
qed

lemma be_value_Cons: "be_value (b # bs) = unat b * 256 ^ length bs + be_value bs"
  using be_value_foldl [of "unat b" bs] by (simp add: be_value_def)

lemma generateSecret_delegated_top_byte:
  assumes "32 \<le> unat (draw 0)"
  shows "2 ^ 253 \<le> be_value (generateSecret_delegated draw)"
proof -
  have "[0 ..< 31] = 0 # [1 ..< 31]" by (simp add: upt_conv_Cons)
  then have "generateSecret_delegated draw = draw 0 # (map draw [1 ..< 31] @ [draw 31 AND 0x1f])"
    by (simp add: generateSecret_delegated_eq)
  then have "be_value (generateSecret_delegated draw)
      = unat (draw 0) * 256 ^ 31 + be_value (map draw [1 ..< 31] @ [draw 31 AND 0x1f])"
    by (simp add: be_value_Cons)
  moreover have "(32 :: nat) * 256 ^ 31 \<le> unat (draw 0) * 256 ^ 31"
    using assms by (rule mult_le_mono1)
  moreover have "(32 :: nat) * 256 ^ 31 = 2 ^ 253" by simp
  ultimately show ?thesis by linarith
qed

text \<open>
  Claim C2 fails on the code. With a random fill of \<open>0xff\<close> bytes the secret read
  big-endian, as \<open>computeLeafHash\<close> and \<open>computeNullifier\<close> read it, is
  \<open>2^256 - 225\<close>, not below \<open>2^253\<close>: the mask clears the top bits of the last byte,
  which is the least significant one in that reading.
\<close>

theorem generateSecret_delegated_exceeds_field:
  "BigInt_0x (buffer_hex (generateSecret_delegated (ones_rng 0))) = Inr (2 ^ 256 - 225)
   \<and> \<not> ((2 :: int) ^ 256 - 225 < 2 ^ 253)"
proof -
  have "generateSecret_delegated (ones_rng 0) \<noteq> []"
    by (simp add: generateSecret_delegated_eq)
  then show ?thesis
    by (simp add: BigInt_0x_buffer_hex be_value_ones_secret)
qed

lemma digits_value_snoc: "digits_value (ds @ [c]) = 16 * digits_value ds + the (hexval c)"
  by (simp add: digits_value_def)

lemma toString16_nat_digits:
  "list_all is_hex (toString16_nat m) \<and> toString16_nat m \<noteq> []
   \<and> digits_value (toString16_nat m) = m"
proof (induction m rule: toString16_nat.induct)
  case (1 n)
  show ?case
  proof (cases "n < 16")
    case True
    then show ?thesis
      by (simp add: toString16_nat.simps [of n] is_hex_hexdigit digits_value_def hexval_hexdigit)
  next
    case False
    have lt: "n mod 16 < 16" by simp
    from 1 [OF False] False show ?thesis
      by (simp add: toString16_nat.simps [of n] is_hex_hexdigit digits_value_snoc
          hexval_hexdigit lt)
  qed
qed

lemma hexInput_digits:
  assumes "0 \<le> n"
  shows "list_all is_hex (hexInput n) \<and> hexInput n \<noteq> [] \<and> digits_value (hexInput n) = nat n"
proof -
  have z: "is_hex (CHR ''0'')" "hexval (CHR ''0'') = Some 0"
    by (simp_all add: is_hex_def hexval_def)
  have "digits_value (CHR ''0'' # ds) = digits_value ds" for ds
    by (simp add: digits_value_def z)
  with toString16_nat_digits [of "nat n"] assms z show ?thesis
    by (simp add: hexInput_def toString16_def Let_def)
qed

lemma BigInt_0x_hexInput: "0 \<le> n \<Longrightarrow> BigInt_0x (hexInput n) = Inr n"
  using hexInput_digits [of n] by (simp add: BigInt_0x_hex_digits)

lemma le_value_digits:
  "le_value (map (\<lambda>k. (of_nat (u div 256 ^ (i + k)) :: 8 word)) [0 ..< n]) = (u div 256 ^ i) mod 256 ^ n"
proof (induction n arbitrary: i)
  case 0
  show ?case by (simp add: le_value_def)
next
  case (Suc n)
  have "[0 ..< Suc n] = 0 # map Suc [0 ..< n]"
    by (simp add: upt_conv_Cons map_Suc_upt del: upt_Suc)
  then have "map (\<lambda>k. (of_nat (u div 256 ^ (i + k)) :: 8 word)) [0 ..< Suc n]
      = of_nat (u div 256 ^ i) # map (\<lambda>k. of_nat (u div 256 ^ (Suc i + k))) [0 ..< n]"
    by (simp add: comp_def del: upt_Suc)
  then have "le_value (map (\<lambda>k. (of_nat (u div 256 ^ (i + k)) :: 8 word)) [0 ..< Suc n])
      = (u div 256 ^ i) mod 256 + 256 * ((u div 256 ^ Suc i) mod 256 ^ n)"
    using Suc.IH [of "Suc i"] by (simp add: le_value_def unat_of_nat del: upt_Suc)
  also have "u div 256 ^ Suc i = (u div 256 ^ i) div 256"
    by (simp only: power_Suc2 div_mult2_eq)
  also have "(u div 256 ^ i) mod 256 + 256 * ((u div 256 ^ i) div 256 mod 256 ^ n)
      = (u div 256 ^ i) mod 256 ^ Suc n"
    by (simp add: mod_mult2_eq)
  finally show ?case .
qed

lemma setBigUint64_le_value:
  "length (setBigUint64_le v) = 8 \<and> le_value (setBigUint64_le v) = nat (v mod 2 ^ 64)"
proof -
  define w :: "64 word" where "w = word_of_int v"
  have byte: "(ucast (drop_bit (8 * k) w) :: 8 word) = of_nat (unat w div 256 ^ (0 + k))" for k
  proof -
    have p: "(256 :: nat) ^ k = 2 ^ (8 * k)" by (simp add: power_mult)
    have "unat (ucast (drop_bit (8 * k) w) :: 8 word) = take_bit 8 (drop_bit (8 * k) (unat w))"
      by (simp add: unsigned_ucast_eq unat_drop_bit_eq)
    also have "\<dots> = (unat w div 256 ^ k) mod 256"
      by (simp add: take_bit_eq_mod drop_bit_eq_div p)
    also have "\<dots> = unat (of_nat (unat w div 256 ^ (0 + k)) :: 8 word)"
      by (simp add: unat_of_nat)
    finally show ?thesis by (rule unsigned_word_eqI)
  qed
  have "le_value (setBigUint64_le v) = (unat w div 256 ^ 0) mod 256 ^ 8"
    unfolding setBigUint64_le_def w_def [symmetric] byte by (rule le_value_digits)
  moreover have "unat w < 2 ^ 64" using unsigned_less [of w, where 'a = nat] by simp
  moreover have "unat w = nat (v mod 2 ^ 64)"
    by (simp add: w_def unsigned_of_int take_bit_eq_mod)
  ultimately show ?thesis by (simp add: setBigUint64_le_def)
qed


lemma computeLeafHash_finite:
  assumes "fmul a (Num 1000000000) = Num q"
  shows "computeLeafHash fmul w a s = Inr (poseidonHash3 (utf8_encode w) (setBigUint64_le \<lfloor>q\<rfloor>) s)"
  using assms by (simp add: computeLeafHash_def)

lemma computeLeafHash_delegated_request:
  assumes "pubkey w = Some wb" "wb \<noteq> []" "s \<noteq> []"
  shows "fst (computeLeafHash_delegated svc pubkey tr w n s)
     = tr @ [[hexInput (int (be_value wb)), hexInput n, hexInput (int (be_value s))]]"
  using assms
  by (simp add: computeLeafHash_delegated_def BigInt_0x_buffer_hex poseidonHash_def Let_def
      split: response.splits sum.splits)

text \<open>
  Claim C10. Whenever the scaled amount is finite, the local \<open>computeLeafHash\<close> hashes, as
  its amount, the 8 bytes that denote \<open>floor (amount * 10^9)\<close> (modulo \<open>2^64\<close>) read
  little-endian; the delegated \<open>computeLeafHash\<close> sends the amount it was given, as hex,
  as the second input of its request. For the amount 1 (whose product with \<open>10^9\<close> needs no
  rounding) the first hashes \<open>10^9\<close> and the second 1.
\<close>

theorem computeLeafHash_amount_inputs:
  "(fmul a (Num 1000000000) = Num q \<longrightarrow>
      computeLeafHash fmul w a s = Inr (poseidonHash3 (utf8_encode w) (setBigUint64_le \<lfloor>q\<rfloor>) s)
      \<and> length (setBigUint64_le \<lfloor>q\<rfloor>) = 8
      \<and> int (le_value (setBigUint64_le \<lfloor>q\<rfloor>)) = \<lfloor>q\<rfloor> mod 2 ^ 64)
   \<and> (pubkey w = Some wb \<and> wb \<noteq> [] \<and> s \<noteq> [] \<and> 0 \<le> n \<longrightarrow>
      fst (computeLeafHash_delegated svc pubkey tr w n s)
        = tr @ [[hexInput (int (be_value wb)), hexInput n, hexInput (int (be_value s))]]
      \<and> BigInt_0x (hexInput n) = Inr n)
   \<and> (fmul (Num 1) (Num 1000000000) = Num 1000000000 \<longrightarrow>
      computeLeafHash fmul w (Num 1) s
        = Inr (poseidonHash3 (utf8_encode w) (setBigUint64_le 1000000000) s)
      \<and> int (le_value (setBigUint64_le 1000000000)) = 1000000000
      \<and> BigInt_0x (hexInput 1) = Inr 1
      \<and> (1000000000 :: int) \<noteq> 1)"
proof (intro conjI impI)
  assume q: "fmul a (Num 1000000000) = Num q"
  show "computeLeafHash fmul w a s = Inr (poseidonHash3 (utf8_encode w) (setBigUint64_le \<lfloor>q\<rfloor>) s)"
    using q by (rule computeLeafHash_finite [of fmul a q])
  show "length (setBigUint64_le \<lfloor>q\<rfloor>) = 8"
    using setBigUint64_le_value by blast
  show "int (le_value (setBigUint64_le \<lfloor>q\<rfloor>)) = \<lfloor>q\<rfloor> mod 2 ^ 64"
    using setBigUint64_le_value [of "\<lfloor>q\<rfloor>"] by simp
next
  assume a: "pubkey w = Some wb \<and> wb \<noteq> [] \<and> s \<noteq> [] \<and> 0 \<le> n"
  then show "fst (computeLeafHash_delegated svc pubkey tr w n s)
        = tr @ [[hexInput (int (be_value wb)), hexInput n, hexInput (int (be_value s))]]"
    using computeLeafHash_delegated_request by blast
  from a show "BigInt_0x (hexInput n) = Inr n"
    by (simp add: BigInt_0x_hexInput)
next
  assume one: "fmul (Num 1) (Num 1000000000) = Num 1000000000"
  from computeLeafHash_finite [of fmul "Num 1" 1000000000, OF one]
  show "computeLeafHash fmul w (Num 1) s
        = Inr (poseidonHash3 (utf8_encode w) (setBigUint64_le 1000000000) s)"
    by simp
  show "int (le_value (setBigUint64_le 1000000000)) = 1000000000"
    using setBigUint64_le_value [of 1000000000] by simp
  show "BigInt_0x (hexInput 1) = Inr 1"
    by (simp add: BigInt_0x_hexInput)
  show "(1000000000 :: int) \<noteq> 1" by simp
qed

theorem computeLeafHash_amount_inputs_witness:
  "computeLeafHash exact_times ''w'' (Num 1) zeroLeaf
     = Inr (poseidonHash3 (utf8_encode ''w'') (setBigUint64_le 1000000000) zeroLeaf)
   \<and> int (le_value (setBigUint64_le 1000000000)) = 1000000000
   \<and> fst (computeLeafHash_delegated failing_service sample_pubkey [] ''w'' 1 zeroLeaf)
     = [[hexInput (int (be_value zeroLeaf)), hexInput 1, hexInput (int (be_value zeroLeaf))]]
   \<and> BigInt_0x (hexInput 1) = Inr 1"
  using computeLeafHash_amount_inputs
    [of exact_times "Num 1" 1000000000 "''w''" zeroLeaf sample_pubkey zeroLeaf 1 failing_service "[]"]
  by (simp add: zeroLeaf_def sample_pubkey_def)

lemma poseidonHash_trace: "fst (poseidonHash svc tr inputs) = tr @ [map hexInput inputs]"
  by (simp add: poseidonHash_def Let_def)

lemma poseidonHash_fails:
  "call_fails (svc (length tr) (map hexInput inputs)) \<Longrightarrow> isl (snd (poseidonHash svc tr inputs))"
  by (auto simp: poseidonHash_def Let_def call_fails_def split: response.splits)

lemma poseidonHash_cases:
  obtains q x where "poseidonHash svc tr inputs = (tr @ [q], x)"
    "call_fails (svc (length tr) q) \<Longrightarrow> isl x"
  using poseidonHash_trace [of svc tr inputs] poseidonHash_fails [of svc tr inputs]
  by (cases "poseidonHash svc tr inputs") auto

lemma isl_Promise_all: "isl (Promise_all ps) \<longleftrightarrow> (\<exists>p \<in> set ps. isl p)"
  by (induction ps rule: Promise_all.induct) (auto split: sum.splits)

lemma extends_refl: "extends_with_failures svc tr tr failed"
  by (auto simp: extends_with_failures_def)

lemma extends_one:
  "(call_fails (svc (length tr) q) \<Longrightarrow> failed) \<Longrightarrow> extends_with_failures svc tr (tr @ [q]) failed"
  by (auto simp: extends_with_failures_def less_Suc_eq_le nth_append)

lemma extends_trans:
  assumes "extends_with_failures svc tr tr1 f1" "extends_with_failures svc tr1 tr2 f2"
    "f1 \<Longrightarrow> failed" "f2 \<Longrightarrow> failed"
  shows "extends_with_failures svc tr tr2 failed"
proof -
  from assms(1,2) obtain n1 n2 where n: "tr1 = tr @ n1" "tr2 = tr1 @ n2"
    by (auto simp: extends_with_failures_def)
  have "failed" if k: "length tr \<le> k" "k < length tr2" "call_fails (svc k (tr2 ! k))" for k
  proof (cases "k < length tr1")
    case True
    then have "tr2 ! k = tr1 ! k" using n(2) by (simp add: nth_append)
    with assms(1) k True have f1 by (auto simp: extends_with_failures_def)
    then show ?thesis by (rule assms(3))
  next
    case False
    with assms(2) k have f2 by (auto simp: extends_with_failures_def)
    then show ?thesis by (rule assms(4))
  qed
  with n show ?thesis by (auto simp: extends_with_failures_def)
qed

lemma poseidonHash_extends:
  "poseidonHash svc tr inputs = (tr', x) \<Longrightarrow> extends_with_failures svc tr tr' (isl x)"
  by (rule poseidonHash_cases [of svc tr inputs]) (auto intro: extends_one)

lemma level_calls_extends:
  "level_calls svc tr cur = (tr', ps) \<Longrightarrow> extends_with_failures svc tr tr' (isl (Promise_all ps))"
proof (induction svc tr cur arbitrary: tr' ps rule: level_calls.induct)
  case (1 svc tr)
  then show ?case by (simp add: extends_refl)
next
  case (2 svc tr a)
  then show ?case by (simp add: extends_refl)
next
  case (3 svc tr a b rest)
  obtain tr1 x where p: "poseidonHash svc tr [a, b] = (tr1, x)"
    by (cases "poseidonHash svc tr [a, b]")
  obtain tr2 xs where l: "level_calls svc tr1 rest = (tr2, xs)"
    by (cases "level_calls svc tr1 rest")
  from "3.prems" p l have eq: "tr' = tr2" "ps = x # xs" by simp_all
  have e1: "extends_with_failures svc tr tr1 (isl x)" by (rule poseidonHash_extends [OF p])
  have e2: "extends_with_failures svc tr1 tr2 (isl (Promise_all xs))"
    by (rule "3.IH" [OF p [symmetric] l])
  show ?case
    unfolding eq
    by (rule extends_trans [OF e1 e2]) (auto simp: isl_Promise_all)
qed


lemma computeLeafHash_delegated_extends:
  "computeLeafHash_delegated svc pubkey tr w amt s = (tr', x) \<Longrightarrow>
     extends_with_failures svc tr tr' (isl x)"
proof -
  assume a: "computeLeafHash_delegated svc pubkey tr w amt s = (tr', x)"
  show ?thesis
  proof (cases "\<exists>wb walletBn secretBn. pubkey w = Some wb \<and> BigInt_0x (buffer_hex wb) = Inr walletBn
      \<and> BigInt_0x (buffer_hex s) = Inr secretBn")
    case False
    with a have "tr' = tr"
      by (auto simp: computeLeafHash_delegated_def Let_def split: option.splits sum.splits)
    then show ?thesis by (simp add: extends_refl)
  next
    case True
    then obtain wb walletBn secretBn where
      h: "pubkey w = Some wb" "BigInt_0x (buffer_hex wb) = Inr walletBn"
        "BigInt_0x (buffer_hex s) = Inr secretBn"
      by blast
    obtain tr1 y where p: "poseidonHash svc tr [walletBn, amt, secretBn] = (tr1, y)"
      by (cases "poseidonHash svc tr [walletBn, amt, secretBn]")
    from a h p have "tr' = tr1" "isl y \<longrightarrow> isl x"
      by (auto simp: computeLeafHash_delegated_def Let_def split: sum.splits)
    with poseidonHash_extends [OF p] show ?thesis
      by (auto simp: extends_with_failures_def)
  qed
qed

lemma leafBn_extends:
  assumes "leafBn svc pubkey tr r = (tr', x)"
  shows "extends_with_failures svc tr tr' (isl x)"
proof (cases "secret r")
  case None
  with assms show ?thesis by (simp add: leafBn_def extends_refl)
next
  case (Some s)
  obtain tr1 y where c: "computeLeafHash_delegated svc pubkey tr (wallet r) (amount r) s = (tr1, y)"
    by (cases "computeLeafHash_delegated svc pubkey tr (wallet r) (amount r) s")
  from assms Some c have "tr' = tr1" "isl y \<longrightarrow> isl x"
    by (auto simp: leafBn_def split: sum.splits)
  with computeLeafHash_delegated_extends [OF c] show ?thesis
    by (auto simp: extends_with_failures_def)
qed

lemma leaf_calls_extends:
  "leaf_calls svc pubkey tr rs = (tr', ps) \<Longrightarrow>
     extends_with_failures svc tr tr' (isl (Promise_all ps))"
proof (induction rs arbitrary: tr tr' ps)
  case Nil
  then show ?case by (simp add: extends_refl)
next
  case (Cons r rs)
  obtain tr1 x where p: "leafBn svc pubkey tr r = (tr1, x)"
    by (cases "leafBn svc pubkey tr r")
  obtain tr2 xs where l: "leaf_calls svc pubkey tr1 rs = (tr2, xs)"
    by (cases "leaf_calls svc pubkey tr1 rs")
  from Cons.prems p l have eq: "tr' = tr2" "ps = x # xs" by simp_all
  have e1: "extends_with_failures svc tr tr1 (isl x)" by (rule leafBn_extends [OF p])
  have e2: "extends_with_failures svc tr1 tr2 (isl (Promise_all xs))"
    by (rule Cons.IH [OF l])
  show ?case
    unfolding eq
    by (rule extends_trans [OF e1 e2]) (auto simp: isl_Promise_all)
qed

lemma levels_delegated_extends:
  "levels_delegated svc n tr cur = (tr', res) \<Longrightarrow> extends_with_failures svc tr tr' (isl res)"
proof (induction n arbitrary: tr cur)
  case 0
  then show ?case by (simp add: extends_refl)
next
  case (Suc n)
  obtain tr1 ps where l: "level_calls svc tr cur = (tr1, ps)"
    by (cases "level_calls svc tr cur")
  note e1 = level_calls_extends [OF l]
  show ?case
  proof (cases "Promise_all ps")
    case (Inl e)
    with Suc.prems l have "tr' = tr1" "res = Inl e" by simp_all
    with e1 show ?thesis by (auto simp: extends_with_failures_def)
  next
    case (Inr nextLevel)
    with Suc.prems l have r: "levels_delegated svc n tr1 nextLevel = (tr', res)" by simp
    from Inr have "\<not> isl (Promise_all ps)" by simp
    with extends_trans [OF e1 Suc.IH [OF r], of "isl res"] show ?thesis by simp
  qed
qed

lemma buildMerkleTree_delegated_extends:
  assumes "buildMerkleTree_delegated svc pubkey rng recipients = (calls, outcome)"
  shows "extends_with_failures svc [] calls (isl outcome)"
proof -
  obtain tr1 ps where l: "leaf_calls svc pubkey [] (recipientsWithSecrets_delegated rng 0 recipients) = (tr1, ps)"
    by (cases "leaf_calls svc pubkey [] (recipientsWithSecrets_delegated rng 0 recipients)")
  note e1 = leaf_calls_extends [OF l]
  show ?thesis
  proof (cases "Promise_all ps")
    case (Inl e)
    with assms l have "calls = tr1" "outcome = Inl e"
      by (simp_all add: buildMerkleTree_delegated_def)
    with e1 show ?thesis by (auto simp: extends_with_failures_def)
  next
    case (Inr computed)
    define leavesBn where "leavesBn = computed @ replicate (paddedSize - length computed) 0"
    obtain tr2 res where r: "levels_delegated svc TREE_DEPTH tr1 leavesBn = (tr2, res)"
      by (cases "levels_delegated svc TREE_DEPTH tr1 leavesBn")
    from assms l Inr r have "calls = tr2" "isl res \<longrightarrow> isl outcome"
      by (auto simp: buildMerkleTree_delegated_def Let_def leavesBn_def
          split: sum.splits option.splits)
    moreover from Inr have "\<not> isl (Promise_all ps)" by simp
    ultimately show ?thesis
      using extends_trans [OF e1 levels_delegated_extends [OF r], of "isl outcome"] by auto
  qed
qed

text \<open>
  Claim C6. If any single call of the hash service that the delegated \<open>buildMerkleTree\<close>
  made failed (no response, a response that is not \<open>ok\<close>, or a hash that cannot be read),
  the build ends with an error: there is no tree, partial or with a default in place of the
  failed hash.
\<close>

theorem buildMerkleTree_delegated_aborts:
  assumes "buildMerkleTree_delegated svc pubkey rng recipients = (calls, outcome)"
    and "k < length calls"
    and "call_fails (svc k (calls ! k))"
  shows "\<exists>e. outcome = Inl e"
proof -
  from buildMerkleTree_delegated_extends [OF assms(1)] assms(2,3)
  have "isl outcome" by (auto simp: extends_with_failures_def)
  then show ?thesis by (cases outcome) auto
qed


lemma be_value_replicate_0: "be_value (replicate n 0) = 0"
  by (induction n) (simp_all add: be_value_def)

lemma zero_draw: "map (zero_rng k) [0 ..< n] = replicate n 0"
  by (simp add: map_replicate_const zero_rng_def [abs_def])

lemma zero_secret: "generateSecret_delegated (zero_rng k) = zeroLeaf"
proof -
  have "replicate (Suc 31) (0 :: 8 word) = replicate 31 0 @ [0]"
    by (simp only: replicate_Suc replicate_append_same)
  then have "replicate 32 (0 :: 8 word) = replicate 31 0 @ [0]" by simp
  then show ?thesis
    by (simp add: generateSecret_delegated_eq zero_draw zeroLeaf_def zero_rng_def)
qed

lemma BigInt_zeroLeaf: "BigInt_0x (buffer_hex zeroLeaf) = Inr 0"
  by (simp add: BigInt_0x_buffer_hex zeroLeaf_def be_value_replicate_0)

lemma failing_build:
  "buildMerkleTree_delegated failing_service sample_pubkey zero_rng [sample_recipient_delegated]
     = ([[hexInput 0, hexInput 1, hexInput 0]], Inl PoseidonHashFailed)"
  by (simp add: buildMerkleTree_delegated_def sample_recipient_delegated_def zero_secret
      leafBn_def computeLeafHash_delegated_def sample_pubkey_def BigInt_zeroLeaf
      poseidonHash_def failing_service_def)

theorem buildMerkleTree_delegated_aborts_witness:
  "buildMerkleTree_delegated failing_service sample_pubkey zero_rng [sample_recipient_delegated]
     = ([[hexInput 0, hexInput 1, hexInput 0]], Inl PoseidonHashFailed)
   \<and> call_fails (failing_service 0 [hexInput 0, hexInput 1, hexInput 0])
   \<and> (\<exists>e. snd (buildMerkleTree_delegated failing_service sample_pubkey zero_rng
          [sample_recipient_delegated]) = Inl e)"
proof -
  have f: "call_fails (failing_service 0 ([[hexInput 0, hexInput 1, hexInput 0]] ! 0))"
    by (simp add: call_fails_def failing_service_def)
  have "0 < length [[hexInput 0, hexInput 1, hexInput 0]]" by simp
  from buildMerkleTree_delegated_aborts [OF failing_build this f] f
  show ?thesis by (simp add: failing_build)
qed

section \<open>What the builds return\<close>

























section \<open>Capacity\<close>














section \<open>The builds and the caller's objects\<close>




lemma map_withSecrets_frame:
  "map_withSecrets gen rng k h refs = (h', res) \<Longrightarrow> \<exists>new. h' = h @ new"
proof (induction refs arbitrary: k h h' res)
  case Nil
  then show ?case by simp
next
  case (Cons r refs)
  show ?case
  proof (cases "recipient_at h r")
    case None
    with Cons.prems show ?thesis by simp
  next
    case (Some obj)
    define k' where "k' = (case secret obj of Some s \<Rightarrow> k | None \<Rightarrow> Suc k)"
    define c where "c = RecipientObj (obj\<lparr>secret := Some (case secret obj of Some s \<Rightarrow> s
      | None \<Rightarrow> gen (rng k))\<rparr>)"
    obtain h2 res2 where m: "map_withSecrets gen rng k' (h @ [c]) refs = (h2, res2)"
      by (cases "map_withSecrets gen rng k' (h @ [c]) refs")
    from Cons.IH [OF m] obtain new where new: "h2 = (h @ [c]) @ new" by blast
    from Cons.prems Some m have "h' = h2"
      by (cases "secret obj"; cases res2) (simp_all add: alloc_def k'_def c_def)
    with new show ?thesis by simp
  qed
qed





lemma buildMerkleTree_heap_frame:
  assumes "buildMerkleTree_heap fmul rng h a = (h', res)"
  shows "\<exists>new. h' = h @ new"
proof (cases "\<exists>refs. js_index h (int a) = Some (ArrayObj refs)")
  case False
  with assms have "h' = h"
    by (auto simp: buildMerkleTree_heap_def split: option.splits cell.splits)
  then show ?thesis by simp
next
  case True
  then obtain refs where refs: "js_index h (int a) = Some (ArrayObj refs)" by blast
  obtain h1 r1 where m: "map_withSecrets generateSecret rng 0 h refs = (h1, r1)"
    by (cases "map_withSecrets generateSecret rng 0 h refs")
  from map_withSecrets_frame [OF m] obtain new where new: "h1 = h @ new" by blast
  show ?thesis
  proof (cases r1)
    case (Inl e)
    with assms refs m have "h' = h1" by (simp add: buildMerkleTree_heap_def)
    with new show ?thesis by simp
  next
    case (Inr objs)
    with assms refs m have "h' = h1 @ [ArrayObj objs]"
      by (auto simp: buildMerkleTree_heap_def alloc_def Let_def split: sum.splits prod.splits)
    with new show ?thesis by simp
  qed
qed







lemma buildMerkleTree_delegated_heap_frame:
  assumes "buildMerkleTree_delegated_heap svc pubkey rng h a = (h', res)"
  shows "\<exists>new. h' = h @ new"
proof (cases "\<exists>refs. js_index h (int a) = Some (ArrayObj refs)")
  case False
  with assms have "h' = h"
    by (auto simp: buildMerkleTree_delegated_heap_def split: option.splits cell.splits)
  then show ?thesis by simp
next
  case True
  then obtain refs where refs: "js_index h (int a) = Some (ArrayObj refs)" by blast
  obtain h1 r1 where m: "map_withSecrets generateSecret_delegated rng 0 h refs = (h1, r1)"
    by (cases "map_withSecrets generateSecret_delegated rng 0 h refs")
  from map_withSecrets_frame [OF m] obtain new where new: "h1 = h @ new" by blast
  show ?thesis
  proof (cases r1)
    case (Inl e)
    with assms refs m have "h' = h1" by (simp add: buildMerkleTree_delegated_heap_def)
    with new show ?thesis by simp
  next
    case (Inr objs)
    with assms refs m have "h' = h1 @ [ArrayObj objs]"
      by (auto simp: buildMerkleTree_delegated_heap_def alloc_def Let_def
          split: sum.splits prod.splits option.splits)
    with new show ?thesis by simp
  qed
qed










lemma simpleHash_loop_append:
  "simpleHash_loop (xs @ ys) hs = simpleHash_loop ys (simpleHash_loop xs hs)"
  by (induction xs hs rule: simpleHash_loop.induct) simp_all
















end
